theory Spec2Isabelle
  imports Complex_Main "HOL-Library.Multiset"
begin

section \<open>JavaScript values\<close>

text \<open>
  A JavaScript \<open>number\<close> is modelled as a rational: every finite double is one, and the
  comparisons and \<open>===\<close> of finite doubles agree with those of the rationals. Division is
  exact here (IEEE rounding, \<open>NaN\<close> and the infinities are not values of the model; where
  the source divides by zero the result is written out case by case). The only quotients of
  the source are a coordinate or a grid dimension over a bucket dimension, of which the
  integer part or the ceiling is taken. When the grid and bucket dimensions are integers
  from 1 to \<open>2^52\<close> (the constructor admits only integers from 1), the rounded quotient of
  the source has the integer part and the ceiling of the exact one; otherwise (\<open>resize\<close>
  admits any dimension) it need not: the source computes 3 for
  \<open>0.9999999999999999 / (1 / 3)\<close>, whose exact value is below 3. The theorems for C6 and C10
  on the calls that return are stated for such dimensions.

  The upper limit \<open>2^32 - 1\<close> on the length of an array is not modelled: an array grows as
  far as it is asked to. The theorems on the growth of a pool are stated for lengths within
  the limit.
\<close>

type_synonym number = rat

text \<open>\<open>Number.isInteger\<close>.\<close>

definition isInteger :: "number \<Rightarrow> bool" where
  "isInteger q = (of_int \<lfloor>q\<rfloor> = q)"

text \<open>
  Every \<open>throw new Error(...)\<close> of the source, named as the specification names them, and the
  two errors the runtime itself raises: \<open>TypeError\<close> (a property read on \<open>undefined\<close>) and
  \<open>RangeError\<close> (an invalid array length). \<open>NoReturn\<close> stands for a loop whose bound is
  \<open>Infinity\<close>: the call never comes back.
\<close>

datatype error =
    DimensionError | BoundsError | NotFoundError
  | DuplicateRecordError | InvalidReleaseError
  | TypeError | RangeError | NoReturn

text \<open>
  A method call either returns a value or throws; in both cases the object is left in some
  state, which the result carries.
\<close>

datatype ('a, 's) result = Return 'a 's | Throw error 's

text \<open>
  A JavaScript array: its elements by index (\<open>None\<close> is a hole, read as \<open>undefined\<close>) and
  its \<open>length\<close>. A store at a negative index sets a property and leaves \<open>length\<close> alone.
\<close>

record 'o array =
  elems :: "int \<Rightarrow> 'o option"
  len :: nat

definition arr_empty :: "'o array" where
  "arr_empty = \<lparr>elems = (\<lambda>_. None), len = 0\<rparr>"

definition arr_get :: "'o array \<Rightarrow> int \<Rightarrow> 'o option" where
  "arr_get a i = elems a i"

definition arr_set :: "'o array \<Rightarrow> int \<Rightarrow> 'o \<Rightarrow> 'o array" where
  "arr_set a i v =
     a\<lparr>elems := (elems a)(i := Some v),
       len := (if int (len a) \<le> i then nat (i + 1) else len a)\<rparr>"

text \<open>\<open>a.length += n\<close>: a \<open>RangeError\<close> unless the new length is a non-negative integer;
  a shorter length deletes the elements beyond it. The source also throws a \<open>RangeError\<close>
  for a new length above \<open>2^32 - 1\<close>, which is outside this model.\<close>

definition arr_add_length :: "'o array \<Rightarrow> number \<Rightarrow> error + 'o array" where
  "arr_add_length a n =
     (let l = of_nat (len a) + n in
      if \<not> isInteger l \<or> l < 0 then Inl RangeError
      else Inr (a\<lparr>elems := (\<lambda>i. if i < \<lfloor>l\<rfloor> then elems a i else None), len := nat \<lfloor>l\<rfloor>\<rparr>))"

text \<open>What a call left behind, whichever way it ended.\<close>

fun state_of :: "('a, 's) result \<Rightarrow> 's" where
  "state_of (Return v s) = s"
| "state_of (Throw e s) = s"

fun returned :: "('a, 's) result \<Rightarrow> 'a option" where
  "returned (Return v s) = Some v"
| "returned (Throw e s) = None"

fun thrown :: "('a, 's) result \<Rightarrow> error option" where
  "thrown (Return v s) = None"
| "thrown (Throw e s) = Some e"

section \<open>Pool.ts, FastPool.ts\<close>

record PoolConfig =
  initialSize :: "number option"
  autoHydrateSize :: "number option"

text \<open>
  The private fields of \<open>FastPool\<close>. The factory \<open>_onHydrate\<close> is a callback without
  arguments: \<open>onHydrate k\<close> is what its \<open>k\<close>-th call (from 0) returns and \<open>hydrateCalls\<close>
  counts the calls made so far. \<open>onRelease\<close> says whether a release callback was given and
  \<open>releaseCalls\<close> lists the objects it was called with. \<open>config\<close> is \<open>_config\<close> after the
  constructor has filled in the defaults.
\<close>

record 'o FastPool =
  indexInPool :: int
  pool :: "'o array"
  onHydrate :: "nat \<Rightarrow> 'o"
  hydrateCalls :: nat
  onRelease :: bool
  releaseCalls :: "'o list"
  config :: PoolConfig

definition availableObjects :: "('o, 'm) FastPool_scheme \<Rightarrow> int" where
  "availableObjects p = indexInPool p"

definition totalObjects :: "('o, 'm) FastPool_scheme \<Rightarrow> int" where
  "totalObjects p = int (len (pool p))"

definition usedObjects :: "('o, 'm) FastPool_scheme \<Rightarrow> int" where
  "usedObjects p = totalObjects p - availableObjects p"

text \<open>\<open>while (objectsToCreate-- > 0)\<close> runs \<open>\<lceil>n\<rceil>\<close> times for a positive \<open>n\<close> and not at all
  otherwise.\<close>

definition loop_count :: "number \<Rightarrow> nat" where
  "loop_count n = nat \<lceil>n\<rceil>"

primrec FastPool_hydrate_loop :: "nat \<Rightarrow> 'o FastPool \<Rightarrow> 'o FastPool" where
  "FastPool_hydrate_loop 0 p = p"
| "FastPool_hydrate_loop (Suc k) p =
     FastPool_hydrate_loop k
       (p\<lparr>pool := arr_set (pool p) (indexInPool p) (onHydrate p (hydrateCalls p)),
          indexInPool := indexInPool p + 1,
          hydrateCalls := Suc (hydrateCalls p)\<rparr>)"

definition FastPool_hydrate :: "number \<Rightarrow> 'o FastPool \<Rightarrow> (unit, 'o FastPool) result" where
  "FastPool_hydrate objectsToCreate p =
     (case arr_add_length (pool p) objectsToCreate of
        Inl e \<Rightarrow> Throw e p
      | Inr a \<Rightarrow> Return () (FastPool_hydrate_loop (loop_count objectsToCreate) (p\<lparr>pool := a\<rparr>)))"

definition FastPool_new ::
  "(nat \<Rightarrow> 'o) \<Rightarrow> bool \<Rightarrow> PoolConfig \<Rightarrow> (unit, 'o FastPool) result" where
  "FastPool_new hydrateCb releaseCb cfg =
     (let cfg1 = cfg\<lparr>initialSize := Some (case initialSize cfg of None \<Rightarrow> 10 | Some n \<Rightarrow> n)\<rparr>;
          cfg2 = cfg1\<lparr>autoHydrateSize :=
                   Some (case autoHydrateSize cfg1 of None \<Rightarrow> 10 | Some n \<Rightarrow> n)\<rparr>
      in FastPool_hydrate (the (initialSize cfg2))
           \<lparr>indexInPool = 0, pool = arr_empty, onHydrate = hydrateCb, hydrateCalls = 0,
            onRelease = releaseCb, releaseCalls = [], config = cfg2\<rparr>)"

text \<open>\<open>getOne\<close> returns \<open>this._pool[--this._indexInPool]\<close>, which is \<open>undefined\<close> (\<open>None\<close>)
  where the array has no element. An absent \<open>autoHydrateSize\<close> (which the constructor
  excludes) would make \<open>length += undefined\<close> a \<open>RangeError\<close>.\<close>

definition FastPool_getOne :: "'o FastPool \<Rightarrow> ('o option, 'o FastPool) result" where
  "FastPool_getOne p =
     (case (if indexInPool p = 0
            then (case autoHydrateSize (config p) of
                    None \<Rightarrow> Throw RangeError p
                  | Some n \<Rightarrow> FastPool_hydrate n p)
            else Return () p) of
        Throw e p' \<Rightarrow> Throw e p'
      | Return _ p' \<Rightarrow>
          Return (arr_get (pool p') (indexInPool p' - 1)) (p'\<lparr>indexInPool := indexInPool p' - 1\<rparr>))"

definition FastPool_release :: "'o \<Rightarrow> 'o FastPool \<Rightarrow> 'o FastPool" where
  "FastPool_release object p =
     p\<lparr>pool := arr_set (pool p) (indexInPool p) object,
       indexInPool := indexInPool p + 1,
       releaseCalls := (if onRelease p then releaseCalls p @ [object] else releaseCalls p)\<rparr>"

text \<open>\<open>k\<close> calls of \<open>getOne\<close> in a row, as the tests make them; a throw ends the run.\<close>

fun FastPool_getMany :: "nat \<Rightarrow> 'o FastPool \<Rightarrow> ('o option list, 'o FastPool) result" where
  "FastPool_getMany 0 p = Return [] p"
| "FastPool_getMany (Suc k) p =
     (case FastPool_getOne p of
        Throw e p' \<Rightarrow> Throw e p'
      | Return v p' \<Rightarrow>
          (case FastPool_getMany k p' of
             Throw e p'' \<Rightarrow> Throw e p''
           | Return vs p'' \<Rightarrow> Return (v # vs) p''))"

section \<open>SlowPool.ts\<close>

text \<open>
  \<open>SlowPool\<close> declares the fields of \<open>FastPool\<close> again and one more, \<open>_isAvailableMap\<close>, a
  \<open>Map\<close> from objects to booleans. Its keys are what \<open>getOne\<close> and the factory produced, so
  \<open>undefined\<close> (\<open>None\<close>) can be a key. The record extension shares the field names only:
  each method below is written from SlowPool's own source.
\<close>

record 'o SlowPool = "'o FastPool" +
  isAvailableMap :: "'o option \<Rightarrow> bool option"

text \<open>\<open>Map.prototype.has\<close>.\<close>

definition map_has :: "('k \<Rightarrow> 'b option) \<Rightarrow> 'k \<Rightarrow> bool" where
  "map_has m k = (case m k of None \<Rightarrow> False | Some _ \<Rightarrow> True)"

fun SlowPool_hydrate_loop :: "nat \<Rightarrow> 'o SlowPool \<Rightarrow> (unit, 'o SlowPool) result" where
  "SlowPool_hydrate_loop 0 p = Return () p"
| "SlowPool_hydrate_loop (Suc k) p =
     (let nextObject = onHydrate p (hydrateCalls p);
          p1 = p\<lparr>hydrateCalls := Suc (hydrateCalls p)\<rparr>
      in if map_has (isAvailableMap p1) (Some nextObject) then Throw DuplicateRecordError p1
         else SlowPool_hydrate_loop k
                (p1\<lparr>isAvailableMap := (isAvailableMap p1)(Some nextObject \<mapsto> True),
                    pool := arr_set (pool p1) (indexInPool p1) nextObject,
                    indexInPool := indexInPool p1 + 1\<rparr>))"

definition SlowPool_hydrate :: "number \<Rightarrow> 'o SlowPool \<Rightarrow> (unit, 'o SlowPool) result" where
  "SlowPool_hydrate objectsToCreate p =
     (case arr_add_length (pool p) objectsToCreate of
        Inl e \<Rightarrow> Throw e p
      | Inr a \<Rightarrow> SlowPool_hydrate_loop (loop_count objectsToCreate) (p\<lparr>pool := a\<rparr>))"

definition SlowPool_new ::
  "(nat \<Rightarrow> 'o) \<Rightarrow> bool \<Rightarrow> PoolConfig \<Rightarrow> (unit, 'o SlowPool) result" where
  "SlowPool_new hydrateCb releaseCb cfg =
     (let cfg1 = cfg\<lparr>initialSize := Some (case initialSize cfg of None \<Rightarrow> 10 | Some n \<Rightarrow> n)\<rparr>;
          cfg2 = cfg1\<lparr>autoHydrateSize :=
                   Some (case autoHydrateSize cfg1 of None \<Rightarrow> 10 | Some n \<Rightarrow> n)\<rparr>
      in SlowPool_hydrate (the (initialSize cfg2))
           \<lparr>indexInPool = 0, pool = arr_empty, onHydrate = hydrateCb, hydrateCalls = 0,
            onRelease = releaseCb, releaseCalls = [], config = cfg2,
            isAvailableMap = (\<lambda>_. None)\<rparr>)"

definition SlowPool_getOne :: "'o SlowPool \<Rightarrow> ('o option, 'o SlowPool) result" where
  "SlowPool_getOne p =
     (case (if indexInPool p = 0
            then (case autoHydrateSize (config p) of
                    None \<Rightarrow> Throw RangeError p
                  | Some n \<Rightarrow> SlowPool_hydrate n p)
            else Return () p) of
        Throw e p' \<Rightarrow> Throw e p'
      | Return _ p' \<Rightarrow>
          (let object = arr_get (pool p') (indexInPool p' - 1) in
           Return object
             (p'\<lparr>indexInPool := indexInPool p' - 1,
                 isAvailableMap := (isAvailableMap p')(object \<mapsto> False)\<rparr>)))"

definition SlowPool_release :: "'o \<Rightarrow> 'o SlowPool \<Rightarrow> (unit, 'o SlowPool) result" where
  "SlowPool_release object p =
     (if \<not> map_has (isAvailableMap p) (Some object) then Throw InvalidReleaseError p
      else if isAvailableMap p (Some object) = Some True then Throw InvalidReleaseError p
      else Return ()
             (p\<lparr>pool := arr_set (pool p) (indexInPool p) object,
                indexInPool := indexInPool p + 1,
                releaseCalls := (if onRelease p then releaseCalls p @ [object]
                                 else releaseCalls p)\<rparr>))"

fun SlowPool_getMany :: "nat \<Rightarrow> 'o SlowPool \<Rightarrow> ('o option list, 'o SlowPool) result" where
  "SlowPool_getMany 0 p = Return [] p"
| "SlowPool_getMany (Suc k) p =
     (case SlowPool_getOne p of
        Throw e p' \<Rightarrow> Throw e p'
      | Return v p' \<Rightarrow>
          (case SlowPool_getMany k p' of
             Throw e p'' \<Rightarrow> Throw e p''
           | Return vs p'' \<Rightarrow> Return (v # vs) p''))"

section \<open>SpatialGrid2D.ts\<close>

text \<open>
  What the \<open>value\<close> field of an \<open>Item\<close> can hold: \<open>undefined\<close> and \<open>null\<close>, which the grid
  itself writes when it parks an item in the pool, or an element of the caller. \<open>TElement\<close> is
  any type, so a caller may store \<open>undefined\<close> or \<open>null\<close> too. Equality of this type is
  \<open>===\<close>: for objects, identity.
\<close>

datatype 'v element = Undefined | Null | Element 'v

record 'v Item =
  item_x :: number
  item_y :: number
  item_value :: "'v element"

text \<open>
  Items are objects, shared between the pool and the buckets and written in place. An item
  is known by its address: the \<open>k\<close>-th object the factory of \<open>itemPool\<close> creates has address
  \<open>k\<close>, and \<open>items\<close> maps each address to the fields of the object.
\<close>

type_synonym addr = nat

text \<open>
  The fields of a \<open>SpatialGrid2D\<close> (\<open>grid_size\<close> is \<open>_size\<close>), followed by the state of the
  module it lives in: the shared \<open>itemPool\<close> and the item objects. \<open>destructorCallback\<close> says
  whether the configuration has one, \<open>destructorCalls\<close> lists the arguments of its calls.
\<close>

record 'v SpatialGrid2D =
  gridWidth :: number
  gridHeight :: number
  bucketWidth :: number
  bucketHeight :: number
  grid_size :: int
  destructorCallback :: bool
  destructorCalls :: "('v element \<times> number \<times> number) list"
  buckets :: "addr list list list"
  itemPool :: "addr FastPool"
  items :: "addr \<Rightarrow> 'v Item"

text \<open>The module's \<open>itemPool\<close>: \<open>new FastPool(() => ({x: 0, y: 0, value: undefined}))\<close>, then
  \<open>itemPool.hydrate(1024)\<close>; every object starts as \<open>{x: 0, y: 0, value: undefined}\<close>.\<close>

definition itemPool_init :: "addr FastPool" where
  "itemPool_init =
     state_of (FastPool_hydrate 1024
       (state_of (FastPool_new id False \<lparr>initialSize = None, autoHydrateSize = None\<rparr>)))"

definition items_init :: "addr \<Rightarrow> 'v Item" where
  "items_init = (\<lambda>_. \<lparr>item_x = 0, item_y = 0, item_value = Undefined\<rparr>)"

text \<open>
  \<open>Math.ceil(extent / bucket)\<close> as a loop bound: \<open>None\<close> is \<open>Infinity\<close> (a positive extent over
  0); \<open>NaN\<close>, \<open>-Infinity\<close> and a negative bound let the loop run 0 times.
\<close>

definition bucketsIn :: "number \<Rightarrow> number \<Rightarrow> nat option" where
  "bucketsIn extent bucket =
     (if bucket = 0 then (if 0 < extent then None else Some 0)
      else Some (nat \<lceil>extent / bucket\<rceil>))"

text \<open>The two nested loops that allocate the buckets; \<open>None\<close> when they never end. With no
  row to fill, the inner bound is not reached.\<close>

definition make_buckets :: "number \<Rightarrow> number \<Rightarrow> number \<Rightarrow> number \<Rightarrow> addr list list list option" where
  "make_buckets gw gh bw bh =
     (case bucketsIn gw bw of
        None \<Rightarrow> None
      | Some bucketsInX \<Rightarrow>
          if bucketsInX = 0 then Some []
          else (case bucketsIn gh bh of
                  None \<Rightarrow> None
                | Some bucketsInY \<Rightarrow> Some (replicate bucketsInX (replicate bucketsInY []))))"

definition SpatialGrid2D_new ::
  "number \<Rightarrow> number \<Rightarrow> number \<Rightarrow> number \<Rightarrow> bool \<Rightarrow> addr FastPool \<Rightarrow> (addr \<Rightarrow> 'v Item)
     \<Rightarrow> error + 'v SpatialGrid2D" where
  "SpatialGrid2D_new gw gh bw bh destructor pool0 items0 =
     (if gw < 1 \<or> \<not> isInteger gw then Inl DimensionError
      else if gh < 1 \<or> \<not> isInteger gh then Inl DimensionError
      else if bw < 1 \<or> \<not> isInteger bw then Inl DimensionError
      else if bh < 1 \<or> \<not> isInteger bh then Inl DimensionError
      else (case make_buckets gw gh bw bh of
              None \<Rightarrow> Inl NoReturn
            | Some bs \<Rightarrow>
                Inr \<lparr>gridWidth = gw, gridHeight = gh, bucketWidth = bw, bucketHeight = bh,
                     grid_size = 0, destructorCallback = destructor, destructorCalls = [],
                     buckets = bs, itemPool = pool0, items = items0\<rparr>))"

text \<open>\<open>q | 0\<close>: the fraction is dropped and the integer wraps into 32 signed bits.\<close>

definition toInt32 :: "number \<Rightarrow> int" where
  "toInt32 q = ((if 0 \<le> q then \<lfloor>q\<rfloor> else \<lceil>q\<rceil>) + 2 ^ 31) mod 2 ^ 32 - 2 ^ 31"

text \<open>\<open>x / this._bucketWidth | 0\<close>. Over a width of 0 the quotient is an infinity or \<open>NaN\<close> and
  \<open>| 0\<close> makes it 0, as the division of the rationals does.\<close>

definition bucketIndex :: "number \<Rightarrow> number \<Rightarrow> int" where
  "bucketIndex x w = toInt32 (x / w)"

text \<open>An array read \<open>xs[i]\<close>: \<open>undefined\<close> (\<open>None\<close>) out of range.\<close>

definition nth_opt :: "'a list \<Rightarrow> int \<Rightarrow> 'a option" where
  "nth_opt xs i = (if 0 \<le> i \<and> i < int (length xs) then Some (xs ! nat i) else None)"

text \<open>\<open>this._buckets[i][j]\<close>; \<open>None\<close> where the row or the bucket is \<open>undefined\<close>, on which the
  callers below throw a \<open>TypeError\<close>.\<close>

definition bucket_at :: "addr list list list \<Rightarrow> int \<Rightarrow> int \<Rightarrow> addr list option" where
  "bucket_at bs i j = (case nth_opt bs i of None \<Rightarrow> None | Some row \<Rightarrow> nth_opt row j)"

text \<open>The bucket at \<open>[i][j]\<close> after the writes made to it in place.\<close>

definition set_bucket :: "addr list list list \<Rightarrow> int \<Rightarrow> int \<Rightarrow> addr list \<Rightarrow> addr list list list" where
  "set_bucket bs i j b = bs[nat i := (bs ! nat i)[nat j := b]]"

definition get ::
  "number \<Rightarrow> number \<Rightarrow> 'v element list option \<Rightarrow> 'v SpatialGrid2D \<Rightarrow> error + 'v element list" where
  "get x y out s =
     (if x < 0 \<or> x \<ge> gridWidth s \<or> y < 0 \<or> y \<ge> gridHeight s then Inl BoundsError
      else (case bucket_at (buckets s) (bucketIndex x (bucketWidth s))
                  (bucketIndex y (bucketHeight s)) of
              None \<Rightarrow> Inl TypeError
            | Some bucket \<Rightarrow>
                Inr ((case out of None \<Rightarrow> [] | Some given \<Rightarrow> given) @
                     map (\<lambda>item. item_value (items s item))
                       (filter (\<lambda>item. item_x (items s item) = x \<and> item_y (items s item) = y)
                          bucket))))"

definition insertAt ::
  "number \<Rightarrow> number \<Rightarrow> 'v element \<Rightarrow> 'v SpatialGrid2D \<Rightarrow> (unit, 'v SpatialGrid2D) result" where
  "insertAt x y element s =
     (if x < 0 \<or> x \<ge> gridWidth s \<or> y < 0 \<or> y \<ge> gridHeight s then Throw BoundsError s
      else (case FastPool_getOne (itemPool s) of
              Throw e p \<Rightarrow> Throw e (s\<lparr>itemPool := p\<rparr>)
            | Return None p \<Rightarrow> Throw TypeError (s\<lparr>itemPool := p\<rparr>)
            | Return (Some item) p \<Rightarrow>
                (let s1 = s\<lparr>itemPool := p,
                           items := (items s)(item :=
                             \<lparr>item_x = x, item_y = y, item_value = element\<rparr>)\<rparr>;
                     i = bucketIndex x (bucketWidth s1);
                     j = bucketIndex y (bucketHeight s1)
                 in case bucket_at (buckets s1) i j of
                      None \<Rightarrow> Throw TypeError s1
                    | Some bucket \<Rightarrow>
                        Return () (s1\<lparr>buckets := set_bucket (buckets s1) i j (bucket @ [item]),
                                     grid_size := grid_size s1 + 1\<rparr>))))"

text \<open>
  The loop of \<open>removeAt\<close>, from its variables \<open>i\<close>, \<open>bucketLength\<close>, the array \<open>bucket\<close> and
  \<open>itemFound\<close>. \<open>bucket[i--] = bucket[--bucketLength]\<close> overwrites the match with the last
  live entry and looks at index \<open>i\<close> again. Both reads are in range, since
  \<open>i < bucketLength \<le> bucket.length\<close>.
\<close>

function removeAt_loop ::
  "number \<Rightarrow> number \<Rightarrow> 'v element \<Rightarrow> nat \<Rightarrow> nat \<Rightarrow> addr list \<Rightarrow> bool \<Rightarrow> 'v SpatialGrid2D
     \<Rightarrow> nat \<times> addr list \<times> bool \<times> 'v SpatialGrid2D" where
  "removeAt_loop x y element i bucketLength bucket itemFound s =
     (if i < bucketLength then
        (let item = bucket ! i in
         if item_x (items s item) = x \<and> item_y (items s item) = y \<and>
            item_value (items s item) = element
         then removeAt_loop x y element i (bucketLength - 1)
                (bucket[i := bucket ! (bucketLength - 1)]) True
                (s\<lparr>items := (items s)(item := (items s item)\<lparr>item_value := Undefined\<rparr>),
                   itemPool := FastPool_release item (itemPool s),
                   grid_size := grid_size s - 1\<rparr>)
         else removeAt_loop x y element (i + 1) bucketLength bucket itemFound s)
      else (bucketLength, bucket, itemFound, s))"
  by pat_completeness auto
termination
  by (relation "measure (\<lambda>(x, y, element, i, bucketLength, bucket, itemFound, s). bucketLength - i)")
     auto

definition removeAt ::
  "number \<Rightarrow> number \<Rightarrow> 'v element \<Rightarrow> 'v SpatialGrid2D \<Rightarrow> (unit, 'v SpatialGrid2D) result" where
  "removeAt x y element s =
     (if x < 0 \<or> x \<ge> gridWidth s \<or> y < 0 \<or> y \<ge> gridHeight s then Throw BoundsError s
      else (let i = bucketIndex x (bucketWidth s); j = bucketIndex y (bucketHeight s) in
            case bucket_at (buckets s) i j of
              None \<Rightarrow> Throw TypeError s
            | Some bucket \<Rightarrow>
                (case removeAt_loop x y element 0 (length bucket) bucket False s of
                   (bucketLength, bucket', itemFound, s') \<Rightarrow>
                     (let s'' = s'\<lparr>buckets :=
                                   set_bucket (buckets s') i j (take bucketLength bucket')\<rparr>
                      in if \<not> itemFound then Throw NotFoundError s'' else Return () s''))))"

function removeAllAt_loop ::
  "number \<Rightarrow> number \<Rightarrow> nat \<Rightarrow> nat \<Rightarrow> addr list \<Rightarrow> 'v SpatialGrid2D
     \<Rightarrow> nat \<times> addr list \<times> 'v SpatialGrid2D" where
  "removeAllAt_loop x y i bucketLength bucket s =
     (if i < bucketLength then
        (let item = bucket ! i in
         if item_x (items s item) = x \<and> item_y (items s item) = y
         then removeAllAt_loop x y i (bucketLength - 1)
                (bucket[i := bucket ! (bucketLength - 1)])
                (s\<lparr>grid_size := grid_size s - 1,
                   items := (items s)(item := (items s item)\<lparr>item_value := Null\<rparr>),
                   itemPool := FastPool_release item (itemPool s)\<rparr>)
         else removeAllAt_loop x y (i + 1) bucketLength bucket s)
      else (bucketLength, bucket, s))"
  by pat_completeness auto
termination
  by (relation "measure (\<lambda>(x, y, i, bucketLength, bucket, s). bucketLength - i)") auto

definition removeAllAt ::
  "number \<Rightarrow> number \<Rightarrow> 'v SpatialGrid2D \<Rightarrow> (unit, 'v SpatialGrid2D) result" where
  "removeAllAt x y s =
     (if x < 0 \<or> x \<ge> gridWidth s \<or> y < 0 \<or> y \<ge> gridHeight s then Throw BoundsError s
      else (let i = bucketIndex x (bucketWidth s); j = bucketIndex y (bucketHeight s) in
            case bucket_at (buckets s) i j of
              None \<Rightarrow> Throw TypeError s
            | Some bucket \<Rightarrow>
                (case removeAllAt_loop x y 0 (length bucket) bucket s of
                   (bucketLength, bucket', s') \<Rightarrow>
                     Return () (s'\<lparr>buckets :=
                                   set_bucket (buckets s') i j (take bucketLength bucket')\<rparr>))))"

definition move ::
  "number \<Rightarrow> number \<Rightarrow> number \<Rightarrow> number \<Rightarrow> 'v element \<Rightarrow> 'v SpatialGrid2D
     \<Rightarrow> (unit, 'v SpatialGrid2D) result" where
  "move fromX fromY toX toY element s =
     (case removeAt fromX fromY element s of
        Throw e s' \<Rightarrow> Throw e s'
      | Return _ s' \<Rightarrow> insertAt toX toY element s')"

text \<open>Every item of every bucket of every row, in the order of the three nested
  \<open>for ... of\<close> loops of \<open>resize\<close>, \<open>forEach\<close>, \<open>clear\<close> and \<open>getAll\<close>.\<close>

definition all_items :: "'v SpatialGrid2D \<Rightarrow> addr list" where
  "all_items s = concat (concat (buckets s))"

text \<open>The body of the loops of \<open>resize\<close>, over the items still to visit.\<close>

fun resize_loop ::
  "number \<Rightarrow> number \<Rightarrow> number \<Rightarrow> number \<Rightarrow> addr list \<Rightarrow> addr list list list \<Rightarrow> 'v SpatialGrid2D
     \<Rightarrow> (addr list list list, 'v SpatialGrid2D) result" where
  "resize_loop gw gh bw bh [] newBuckets s = Return newBuckets s"
| "resize_loop gw gh bw bh (item # rest) newBuckets s =
     (if item_x (items s item) \<ge> gw \<or> item_y (items s item) \<ge> gh
      then resize_loop gw gh bw bh rest newBuckets
             (s\<lparr>destructorCalls :=
                  (if destructorCallback s
                   then destructorCalls s @
                          [(item_value (items s item), item_x (items s item), item_y (items s item))]
                   else destructorCalls s),
                items := (items s)(item := (items s item)\<lparr>item_value := Undefined\<rparr>),
                itemPool := FastPool_release item (itemPool s),
                grid_size := grid_size s - 1\<rparr>)
      else (let i = bucketIndex (item_x (items s item)) bw;
                j = bucketIndex (item_y (items s item)) bh
            in case bucket_at newBuckets i j of
                 None \<Rightarrow> Throw TypeError s
               | Some bucket \<Rightarrow>
                   resize_loop gw gh bw bh rest (set_bucket newBuckets i j (bucket @ [item])) s))"

text \<open>\<open>resize\<close> once each omitted argument has been replaced by the current value.\<close>

definition resize_to ::
  "number \<Rightarrow> number \<Rightarrow> number \<Rightarrow> number \<Rightarrow> 'v SpatialGrid2D
     \<Rightarrow> (unit, 'v SpatialGrid2D) result" where
  "resize_to gw gh bw bh s =
     (case make_buckets gw gh bw bh of
        None \<Rightarrow> Throw NoReturn s
      | Some newBuckets \<Rightarrow>
          (case resize_loop gw gh bw bh (all_items s) newBuckets s of
             Throw e s' \<Rightarrow> Throw e s'
           | Return newBuckets' s' \<Rightarrow>
               Return () (s'\<lparr>gridWidth := gw, gridHeight := gh, bucketWidth := bw,
                            bucketHeight := bh, buckets := newBuckets'\<rparr>)))"

definition resize ::
  "number option \<Rightarrow> number option \<Rightarrow> number option \<Rightarrow> number option \<Rightarrow> 'v SpatialGrid2D
     \<Rightarrow> (unit, 'v SpatialGrid2D) result" where
  "resize gridWidth' gridHeight' bucketWidth' bucketHeight' s =
     resize_to (case gridWidth' of None \<Rightarrow> gridWidth s | Some w \<Rightarrow> w)
       (case gridHeight' of None \<Rightarrow> gridHeight s | Some h \<Rightarrow> h)
       (case bucketWidth' of None \<Rightarrow> bucketWidth s | Some w \<Rightarrow> w)
       (case bucketHeight' of None \<Rightarrow> bucketHeight s | Some h \<Rightarrow> h) s"

text \<open>\<open>forEach\<close>: the arguments of the calls of its callback, in order.\<close>

definition forEach :: "'v SpatialGrid2D \<Rightarrow> ('v element \<times> number \<times> number) list" where
  "forEach s =
     map (\<lambda>item. (item_value (items s item), item_x (items s item), item_y (items s item)))
       (all_items s)"

definition clear_item :: "addr \<Rightarrow> 'v SpatialGrid2D \<Rightarrow> 'v SpatialGrid2D" where
  "clear_item item s =
     s\<lparr>items := (items s)(item := (items s item)\<lparr>item_value := Undefined\<rparr>),
       itemPool := FastPool_release item (itemPool s),
       grid_size := grid_size s - 1\<rparr>"

text \<open>\<open>clear\<close>: the items of each bucket in turn, then \<open>bucket.length = 0\<close>. The loop reads no
  bucket it has emptied, so the buckets are emptied here at the end.\<close>

definition clear :: "'v SpatialGrid2D \<Rightarrow> 'v SpatialGrid2D" where
  "clear s = (fold clear_item (all_items s) s)\<lparr>buckets := map (map (\<lambda>bucket. [])) (buckets s)\<rparr>"

definition getAll :: "'v SpatialGrid2D \<Rightarrow> 'v element list" where
  "getAll s = map (\<lambda>item. item_value (items s item)) (all_items s)"

text \<open>The loops of \<open>getFiltered\<close> and \<open>getFirst\<close> run over indices: \<open>x\<close> over the rows, \<open>y\<close>
  over the buckets of the row, then the items of the bucket.\<close>

definition bucket_entries :: "'v SpatialGrid2D \<Rightarrow> (nat \<times> nat \<times> addr) list" where
  "bucket_entries s =
     concat (map (\<lambda>(x, row).
       concat (map (\<lambda>(y, bucket). map (\<lambda>item. (x, y, item)) bucket) (enumerate 0 row)))
       (enumerate 0 (buckets s)))"

definition getFiltered ::
  "('v element \<Rightarrow> number \<Rightarrow> number \<Rightarrow> bool) \<Rightarrow> 'v SpatialGrid2D \<Rightarrow> 'v element list" where
  "getFiltered callback s =
     map (\<lambda>(x, y, item). item_value (items s item))
       (filter (\<lambda>(x, y, item). callback (item_value (items s item)) (of_nat x) (of_nat y))
          (bucket_entries s))"

definition getFirst ::
  "('v element \<Rightarrow> number \<Rightarrow> number \<Rightarrow> bool) \<Rightarrow> 'v SpatialGrid2D \<Rightarrow> 'v element" where
  "getFirst callback s =
     (case List.find (\<lambda>(x, y, item). callback (item_value (items s item)) (of_nat x) (of_nat y))
             (bucket_entries s) of
        None \<Rightarrow> Undefined
      | Some (x, y, item) \<Rightarrow> item_value (items s item))"

text \<open>A sequence of calls on one grid; a throw ends it.\<close>

datatype 'v operation =
    InsertAt number number "'v element"
  | RemoveAt number number "'v element"
  | RemoveAllAt number number
  | Move number number number number "'v element"
  | Resize "number option" "number option" "number option" "number option"
  | Clear

fun run_operation :: "'v operation \<Rightarrow> 'v SpatialGrid2D \<Rightarrow> (unit, 'v SpatialGrid2D) result" where
  "run_operation (InsertAt x y v) s = insertAt x y v s"
| "run_operation (RemoveAt x y v) s = removeAt x y v s"
| "run_operation (RemoveAllAt x y) s = removeAllAt x y s"
| "run_operation (Move a b c d v) s = move a b c d v s"
| "run_operation (Resize gw gh bw bh) s = resize gw gh bw bh s"
| "run_operation Clear s = Return () (clear s)"

fun run :: "'v operation list \<Rightarrow> 'v SpatialGrid2D \<Rightarrow> (unit, 'v SpatialGrid2D) result" where
  "run [] s = Return () s"
| "run (operation # rest) s =
     (case run_operation operation s of
        Throw e s' \<Rightarrow> Throw e s'
      | Return _ s' \<Rightarrow> run rest s')"

section \<open>Example pools\<close>

text \<open>The pools of the common pool tests: \<open>initialSize\<close> 5 and \<open>autoHydrateSize\<close> 3, with a
  factory whose \<open>k\<close>-th call returns the new object \<open>k\<close>.\<close>

definition example_config :: PoolConfig where
  "example_config = \<lparr>initialSize = Some 5, autoHydrateSize = Some 3\<rparr>"

definition example_FastPool :: "nat FastPool" where
  "example_FastPool = state_of (FastPool_new id False example_config)"

definition example_SlowPool :: "nat SlowPool" where
  "example_SlowPool = state_of (SlowPool_new id False example_config)"

text \<open>The pool of SlowPool's own tests: a factory that returns the same object \<open>0\<close> at every
  call, \<open>initialSize\<close> 1, and the default \<open>autoHydrateSize\<close> of 10.\<close>

definition same_instance_SlowPool :: "nat SlowPool" where
  "same_instance_SlowPool =
     state_of (SlowPool_new (\<lambda>_. 0) False \<lparr>initialSize = Some 1, autoHydrateSize = None\<rparr>)"

text \<open>A pool with one object, made by a factory of new objects.\<close>

definition single_SlowPool :: "nat SlowPool" where
  "single_SlowPool =
     state_of (SlowPool_new id False \<lparr>initialSize = Some 1, autoHydrateSize = None\<rparr>)"

section \<open>Example grids\<close>

text \<open>The grid of the tests, \<open>new SpatialGrid2D(9, 7, 3, 4)\<close> with a destructor callback, in
  the module as it is after loading.\<close>

definition example_grid :: "nat SpatialGrid2D" where
  "example_grid = projr (SpatialGrid2D_new 9 7 3 4 True itemPool_init items_init)"

text \<open>A run of calls on that grid that all return.\<close>

definition example_operations :: "nat operation list" where
  "example_operations =
     [InsertAt 1 1 (Element 1), InsertAt 1 1 (Element 2), InsertAt 4 5 (Element 3),
      RemoveAt 1 1 (Element 1), Move 1 1 2 2 (Element 2), RemoveAllAt 4 5,
      InsertAt 8 6 (Element 4), Resize (Some 3) (Some 3) None None]"

text \<open>The grid holding the element 5 once at (0, 0), the grid holding it there twice, the
  grid holding 5 and then 6 there, and the grid holding 5 at (0, 0) and 6 at (8, 6).\<close>

definition example_single :: "nat SpatialGrid2D" where
  "example_single = state_of (insertAt 0 0 (Element 5) example_grid)"

definition example_twice :: "nat SpatialGrid2D" where
  "example_twice = state_of (insertAt 0 0 (Element 5) example_single)"

definition example_pair :: "nat SpatialGrid2D" where
  "example_pair = state_of (insertAt 0 0 (Element 6) example_single)"

definition example_spread :: "nat SpatialGrid2D" where
  "example_spread = state_of (insertAt 8 6 (Element 6) example_single)"


section \<open>Invariants used in the proofs\<close>

text \<open>Every key of \<open>_isAvailableMap\<close> is \<open>undefined\<close> or an object the factory returned, and
  so is every element of \<open>_pool\<close>.\<close>

definition made_by_factory :: "'o SlowPool \<Rightarrow> bool" where
  "made_by_factory p =
     ((\<forall>key. map_has (isAvailableMap p) key \<longrightarrow>
          key = None \<or> key \<in> Some ` onHydrate p ` {..<hydrateCalls p}) \<and>
      (\<forall>i v. elems (pool p) i = Some v \<longrightarrow> v \<in> onHydrate p ` {..<hydrateCalls p}))"

text \<open>
  The pool and a set \<open>F\<close> of filed items own disjoint items: every item of \<open>F\<close> is an
  object the factory made, and the available slots of the pool hold different items, made
  by the factory, none of which is in \<open>F\<close>. The factory makes a new object at every call,
  and \<open>itemPool\<close> has the default \<open>autoHydrateSize\<close>.
\<close>

definition pool_ok :: "addr FastPool \<Rightarrow> addr set \<Rightarrow> bool" where
  "pool_ok p F =
     (0 \<le> indexInPool p \<and> onHydrate p = id \<and> autoHydrateSize (config p) = Some 10 \<and>
      (\<forall>i. 0 \<le> i \<and> i < indexInPool p \<longrightarrow>
         (\<exists>a. elems (pool p) i = Some a \<and> a < hydrateCalls p \<and> a \<notin> F)) \<and>
      inj_on (elems (pool p)) {0..<indexInPool p} \<and>
      (\<forall>a\<in>F. a < hydrateCalls p))"

text \<open>No item is filed twice, and the filed items are not available in the pool.\<close>

definition pool_inv :: "'v SpatialGrid2D \<Rightarrow> bool" where
  "pool_inv s = (pool_ok (itemPool s) (set (all_items s)) \<and> distinct (all_items s))"

text \<open>The record an item holds, \<open>(value, x, y)\<close>, and the records of a list of items.\<close>

definition record_of :: "'v SpatialGrid2D \<Rightarrow> addr \<Rightarrow> 'v element \<times> number \<times> number" where
  "record_of s item = (item_value (items s item), item_x (items s item), item_y (items s item))"

definition records :: "'v SpatialGrid2D \<Rightarrow> addr list \<Rightarrow> ('v element \<times> number \<times> number) list" where
  "records s bucket = map (record_of s) bucket"

text \<open>
  What \<open>removeAt\<close>, \<open>removeAllAt\<close>, \<open>resize\<close> and \<open>clear\<close> do to an item they take out: its
  value is overwritten, it goes back to the pool, and \<open>_size\<close> is decremented.
\<close>

definition park :: "'v element \<Rightarrow> addr \<Rightarrow> 'v SpatialGrid2D \<Rightarrow> 'v SpatialGrid2D" where
  "park parked item s =
     s\<lparr>items := (items s)(item := (items s item)\<lparr>item_value := parked\<rparr>),
       itemPool := FastPool_release item (itemPool s),
       grid_size := grid_size s - 1\<rparr>"

text \<open>The loop shared by \<open>removeAt\<close> and \<open>removeAllAt\<close>, over the test \<open>matches\<close> they apply
  to an item and the value they park it with; the proofs below show that both loops are
  instances of it.\<close>

function swap_remove ::
  "('v Item \<Rightarrow> bool) \<Rightarrow> 'v element \<Rightarrow> nat \<Rightarrow> nat \<Rightarrow> addr list \<Rightarrow> bool \<Rightarrow> 'v SpatialGrid2D
     \<Rightarrow> nat \<times> addr list \<times> bool \<times> 'v SpatialGrid2D" where
  "swap_remove matches parked i n bucket found s =
     (if i < n then
        (if matches (items s (bucket ! i))
         then swap_remove matches parked i (n - 1) (bucket[i := bucket ! (n - 1)]) True
                (park parked (bucket ! i) s)
         else swap_remove matches parked (i + 1) n bucket found s)
      else (n, bucket, found, s))"
  by pat_completeness auto
termination
  by (relation "measure (\<lambda>(matches, parked, i, n, bucket, found, s). n - i)") auto

text \<open>Every filed item has a coordinate of the grid.\<close>

definition items_in_bounds :: "'v SpatialGrid2D \<Rightarrow> bool" where
  "items_in_bounds s =
     (\<forall>a\<in>set (all_items s).
        0 \<le> item_x (items s a) \<and> item_x (items s a) < gridWidth s \<and>
        0 \<le> item_y (items s a) \<and> item_y (items s a) < gridHeight s)"

definition size_inv :: "'v SpatialGrid2D \<Rightarrow> bool" where
  "size_inv s = (grid_size s = int (length (all_items s)))"

definition grid_inv :: "'v SpatialGrid2D \<Rightarrow> bool" where
  "grid_inv s = (pool_inv s \<and> items_in_bounds s \<and> size_inv s)"

text \<open>The buckets cover the grid: positive bucket dimensions, \<open>\<lceil>gridWidth / bucketWidth\<rceil>\<close>
  rows of \<open>\<lceil>gridHeight / bucketHeight\<rceil>\<close> buckets each, and no more than \<open>2^31\<close> of either, so
  that \<open>| 0\<close> does not wrap.\<close>

definition dims_wf :: "'v SpatialGrid2D \<Rightarrow> bool" where
  "dims_wf s =
     (0 < bucketWidth s \<and> 0 < bucketHeight s \<and>
      length (buckets s) = nat \<lceil>gridWidth s / bucketWidth s\<rceil> \<and>
      (\<forall>row\<in>set (buckets s). length row = nat \<lceil>gridHeight s / bucketHeight s\<rceil>) \<and>
      \<lceil>gridWidth s / bucketWidth s\<rceil> \<le> 2 ^ 31 \<and> \<lceil>gridHeight s / bucketHeight s\<rceil> \<le> 2 ^ 31)"

text \<open>The dimensions over which the quotients of the model are those of the source.\<close>

definition exact_dimension :: "number \<Rightarrow> bool" where
  "exact_dimension d = (isInteger d \<and> 1 \<le> d \<and> d \<le> 2 ^ 52)"

section \<open>The pools: proofs\<close>

lemmas pool_defs =
  FastPool_new_def FastPool_hydrate_def FastPool_getOne_def FastPool_release_def
  SlowPool_new_def SlowPool_hydrate_def SlowPool_getOne_def SlowPool_release_def
  arr_add_length_def arr_set_def arr_get_def arr_empty_def isInteger_def loop_count_def
  map_has_def Let_def

lemma isInteger_of_nat [simp]: "isInteger (of_nat k)"
  by (simp add: isInteger_def)

lemma isInteger_nonneg: "isInteger q \<Longrightarrow> 0 \<le> q \<Longrightarrow> q = of_nat (nat \<lfloor>q\<rfloor>)"
  by (metis isInteger_def of_nat_nat zero_le_floor)

lemma loop_count_of_nat [simp]: "loop_count (of_nat k) = k"
  by (simp add: loop_count_def)

lemma arr_add_length_of_nat:
  "arr_add_length a (of_nat m) =
     Inr (a\<lparr>elems := (\<lambda>i. if i < int (len a) + int m then elems a i else None),
            len := len a + m\<rparr>)"
  unfolding arr_add_length_def Let_def by (simp flip: of_nat_add)

lemma arr_add_length_empty:
  "arr_add_length arr_empty n = Inr a \<Longrightarrow> isInteger n \<and> 0 \<le> n"
  by (auto simp: arr_add_length_def arr_empty_def Let_def split: if_splits)

lemma FastPool_hydrate_loop_fields:
  "indexInPool (FastPool_hydrate_loop k p) = indexInPool p + int k"
  "hydrateCalls (FastPool_hydrate_loop k p) = hydrateCalls p + k"
  "config (FastPool_hydrate_loop k p) = config p"
  "onHydrate (FastPool_hydrate_loop k p) = onHydrate p"
  by (induction k arbitrary: p) simp_all

lemma FastPool_hydrate_of_nat:
  "\<exists>p'. FastPool_hydrate (of_nat m) p = Return () p' \<and>
        indexInPool p' = indexInPool p + int m \<and> hydrateCalls p' = hydrateCalls p + m \<and>
        config p' = config p"
  by (simp add: FastPool_hydrate_def arr_add_length_of_nat FastPool_hydrate_loop_fields)

lemma FastPool_new_Return:
  assumes "FastPool_new gen rel cfg = Return () p" and "initialSize (config p) = Some n"
  shows "n = of_nat (nat \<lfloor>n\<rfloor>) \<and> indexInPool p = int (nat \<lfloor>n\<rfloor>) \<and> hydrateCalls p = nat \<lfloor>n\<rfloor>"
proof -
  define n0 where "n0 = (case initialSize cfg of None \<Rightarrow> 10 | Some q \<Rightarrow> q)"
  define p0 where "p0 = \<lparr>indexInPool = 0, pool = arr_empty, onHydrate = gen, hydrateCalls = 0,
      onRelease = rel, releaseCalls = [],
      config = cfg\<lparr>initialSize := Some n0,
                autoHydrateSize := Some (case autoHydrateSize cfg of None \<Rightarrow> 10 | Some q \<Rightarrow> q)\<rparr>\<rparr>"
  have new: "FastPool_hydrate n0 p0 = Return () p"
    using assms(1) by (simp add: FastPool_new_def Let_def n0_def p0_def)
  then obtain a where a: "arr_add_length arr_empty n0 = Inr a"
    and p: "p = FastPool_hydrate_loop (loop_count n0) (p0\<lparr>pool := a\<rparr>)"
    by (auto simp: FastPool_hydrate_def p0_def split: sum.splits)
  have n0: "n0 = of_nat (nat \<lfloor>n0\<rfloor>)"
    using arr_add_length_empty [OF a] isInteger_nonneg by blast
  have "config p = config p0" by (simp add: p FastPool_hydrate_loop_fields)
  then have "n = n0" using assms(2) by (simp add: p0_def)
  moreover have "loop_count n0 = nat \<lfloor>n0\<rfloor>"
    by (metis n0 loop_count_of_nat)
  ultimately show ?thesis
    using n0 by (simp add: p FastPool_hydrate_loop_fields p0_def)
qed

lemma FastPool_getOne_available:
  "indexInPool p \<noteq> 0 \<Longrightarrow>
   FastPool_getOne p =
     Return (arr_get (pool p) (indexInPool p - 1)) (p\<lparr>indexInPool := indexInPool p - 1\<rparr>)"
  by (simp add: FastPool_getOne_def)

lemma FastPool_getMany_available:
  "int k \<le> indexInPool p \<Longrightarrow>
   \<exists>vs. FastPool_getMany k p = Return vs (p\<lparr>indexInPool := indexInPool p - int k\<rparr>)"
proof (induction k arbitrary: p)
  case 0
  then show ?case by simp
next
  case (Suc k)
  then have "int k \<le> indexInPool (p\<lparr>indexInPool := indexInPool p - 1\<rparr>)" by simp
  from Suc.IH [OF this] obtain vs where
    "FastPool_getMany k (p\<lparr>indexInPool := indexInPool p - 1\<rparr>) =
       Return vs (p\<lparr>indexInPool := indexInPool p - 1 - int k\<rparr>)" by auto
  moreover have "indexInPool p \<noteq> 0" using Suc.prems by auto
  ultimately show ?case
    by (simp add: FastPool_getOne_available algebra_simps)
qed

lemma FastPool_getOne_exhausted:
  assumes "indexInPool p = 0" and "autoHydrateSize (config p) = Some (of_nat m)"
  shows "\<exists>v p'. FastPool_getOne p = Return v p' \<and> hydrateCalls p' = hydrateCalls p + m"
proof -
  obtain p1 where "FastPool_hydrate (of_nat m) p = Return () p1"
    and "hydrateCalls p1 = hydrateCalls p + m"
    using FastPool_hydrate_of_nat [of m p] by auto
  then show ?thesis using assms by (simp add: FastPool_getOne_def)
qed

lemma FastPool_counts:
  assumes "FastPool_new gen rel cfg = Return () p" and "initialSize (config p) = Some n"
    and "autoHydrateSize (config p) = Some (of_nat m)"
  shows "n = of_nat (nat \<lfloor>n\<rfloor>) \<and>
     (\<forall>k\<le>nat \<lfloor>n\<rfloor>. \<exists>vs p'. FastPool_getMany k p = Return vs p' \<and> hydrateCalls p' = hydrateCalls p) \<and>
     (\<exists>vs p' v p''. FastPool_getMany (nat \<lfloor>n\<rfloor>) p = Return vs p' \<and> availableObjects p' = 0 \<and>
        FastPool_getOne p' = Return v p'' \<and> hydrateCalls p'' = hydrateCalls p' + m)"
proof -
  let ?N = "nat \<lfloor>n\<rfloor>"
  from FastPool_new_Return [OF assms(1,2)]
  have n: "n = of_nat ?N" and idx: "indexInPool p = int ?N" by auto
  have many: "\<exists>vs. FastPool_getMany k p = Return vs (p\<lparr>indexInPool := indexInPool p - int k\<rparr>)"
    if "k \<le> ?N" for k
  proof -
    have "int k \<le> indexInPool p" unfolding idx using that by (simp only: of_nat_le_iff)
    then show ?thesis by (rule FastPool_getMany_available)
  qed
  have first: "\<forall>k\<le>?N. \<exists>vs p'. FastPool_getMany k p = Return vs p' \<and> hydrateCalls p' = hydrateCalls p"
  proof (intro allI impI)
    fix k assume "k \<le> ?N"
    from many [OF this] obtain vs where
      "FastPool_getMany k p = Return vs (p\<lparr>indexInPool := indexInPool p - int k\<rparr>)" ..
    then show "\<exists>vs p'. FastPool_getMany k p = Return vs p' \<and> hydrateCalls p' = hydrateCalls p"
      by simp
  qed
  from many [of ?N] obtain vs where
    vs: "FastPool_getMany ?N p = Return vs (p\<lparr>indexInPool := indexInPool p - int ?N\<rparr>)" by auto
  let ?p' = "p\<lparr>indexInPool := indexInPool p - int ?N\<rparr>"
  have "indexInPool ?p' = 0" using idx by simp
  moreover have "autoHydrateSize (config ?p') = Some (of_nat m)" using assms(3) by simp
  ultimately obtain v p'' where "FastPool_getOne ?p' = Return v p''"
    and "hydrateCalls p'' = hydrateCalls ?p' + m"
    using FastPool_getOne_exhausted by blast
  with vs idx have "\<exists>vs p' v p''. FastPool_getMany ?N p = Return vs p' \<and> availableObjects p' = 0 \<and>
        FastPool_getOne p' = Return v p'' \<and> hydrateCalls p'' = hydrateCalls p' + m"
    by (auto simp: availableObjects_def)
  with n first show ?thesis by blast
qed

lemma made_by_factory_add_length:
  "made_by_factory p \<Longrightarrow> arr_add_length (pool p) n = Inr a \<Longrightarrow> made_by_factory (p\<lparr>pool := a\<rparr>)"
  by (auto simp: made_by_factory_def arr_add_length_def Let_def split: if_splits)

lemma SlowPool_hydrate_loop_fresh:
  assumes "inj (onHydrate p)" and "made_by_factory p"
  shows "\<exists>p'. SlowPool_hydrate_loop k p = Return () p' \<and> made_by_factory p' \<and>
           hydrateCalls p' = hydrateCalls p + k \<and> indexInPool p' = indexInPool p + int k \<and>
           config p' = config p \<and> onHydrate p' = onHydrate p"
  using assms
proof (induction k arbitrary: p)
  case 0
  then show ?case by simp
next
  case (Suc k)
  let ?o = "onHydrate p (hydrateCalls p)"
  let ?p2 = "p\<lparr>hydrateCalls := Suc (hydrateCalls p),
               isAvailableMap := (isAvailableMap p)(Some ?o \<mapsto> True),
               pool := arr_set (pool p) (indexInPool p) ?o,
               indexInPool := indexInPool p + 1\<rparr>"
  have new: "\<not> map_has (isAvailableMap p) (Some ?o)"
  proof
    assume "map_has (isAvailableMap p) (Some ?o)"
    with Suc.prems(2) obtain j where "j < hydrateCalls p" and "?o = onHydrate p j"
      by (auto simp: made_by_factory_def)
    with Suc.prems(1) show False by (auto dest: injD)
  qed
  have sub: "onHydrate p ` {..<hydrateCalls p} \<subseteq> onHydrate p ` {..<Suc (hydrateCalls p)}"
    by auto
  have "made_by_factory ?p2"
    unfolding made_by_factory_def
  proof (intro conjI allI impI)
    fix key assume "map_has (isAvailableMap ?p2) key"
    then have "key = Some ?o \<or> map_has (isAvailableMap p) key"
      by (simp add: map_has_def split: if_splits)
    then show "key = None \<or> key \<in> Some ` onHydrate ?p2 ` {..<hydrateCalls ?p2}"
      using Suc.prems(2) sub by (auto simp: made_by_factory_def)
  next
    fix i v assume "elems (pool ?p2) i = Some v"
    then have "v = ?o \<or> elems (pool p) i = Some v"
      by (simp add: arr_set_def split: if_splits)
    then show "v \<in> onHydrate ?p2 ` {..<hydrateCalls ?p2}"
      using Suc.prems(2) sub by (auto simp: made_by_factory_def)
  qed
  moreover have "inj (onHydrate ?p2)" using Suc.prems(1) by simp
  ultimately obtain p' where "SlowPool_hydrate_loop k ?p2 = Return () p'" and "made_by_factory p'"
    and "hydrateCalls p' = hydrateCalls ?p2 + k" and "indexInPool p' = indexInPool ?p2 + int k"
    and "config p' = config ?p2" and "onHydrate p' = onHydrate ?p2"
    using Suc.IH [of ?p2] by blast
  with new show ?case by (simp add: Let_def)
qed

lemma SlowPool_hydrate_of_nat:
  assumes "inj (onHydrate p)" and "made_by_factory p"
  shows "\<exists>p'. SlowPool_hydrate (of_nat m) p = Return () p' \<and> made_by_factory p' \<and>
           hydrateCalls p' = hydrateCalls p + m \<and> indexInPool p' = indexInPool p + int m \<and>
           config p' = config p \<and> onHydrate p' = onHydrate p"
proof -
  obtain a where a: "arr_add_length (pool p) (of_nat m) = Inr a"
    by (simp add: arr_add_length_of_nat)
  have "made_by_factory (p\<lparr>pool := a\<rparr>)" using assms(2) a by (rule made_by_factory_add_length)
  moreover have "inj (onHydrate (p\<lparr>pool := a\<rparr>))" using assms(1) by simp
  ultimately show ?thesis
    using SlowPool_hydrate_loop_fresh [of "p\<lparr>pool := a\<rparr>" m] a
    by (simp add: SlowPool_hydrate_def)
qed

lemma SlowPool_new_Return:
  fixes p :: "'o SlowPool"
  assumes "SlowPool_new gen rel cfg = Return () p" and "initialSize (config p) = Some n"
    and "inj gen"
  shows "n = of_nat (nat \<lfloor>n\<rfloor>) \<and> indexInPool p = int (nat \<lfloor>n\<rfloor>) \<and> hydrateCalls p = nat \<lfloor>n\<rfloor> \<and>
         made_by_factory p \<and> onHydrate p = gen"
proof -
  define n0 where "n0 = (case initialSize cfg of None \<Rightarrow> 10 | Some q \<Rightarrow> q)"
  define p0 :: "'o SlowPool" where "p0 = \<lparr>indexInPool = 0, pool = arr_empty, onHydrate = gen,
      hydrateCalls = 0, onRelease = rel, releaseCalls = [],
      config = cfg\<lparr>initialSize := Some n0,
                autoHydrateSize := Some (case autoHydrateSize cfg of None \<Rightarrow> 10 | Some q \<Rightarrow> q)\<rparr>,
      isAvailableMap = (\<lambda>_. None)\<rparr>"
  have new: "SlowPool_hydrate n0 p0 = Return () p"
    using assms(1) by (simp add: SlowPool_new_def Let_def n0_def p0_def)
  then obtain a where a: "arr_add_length (arr_empty :: 'o array) n0 = Inr a"
    by (auto simp: SlowPool_hydrate_def p0_def split: sum.splits)
  have n0: "n0 = of_nat (nat \<lfloor>n0\<rfloor>)"
    using arr_add_length_empty [OF a] isInteger_nonneg by blast
  have "made_by_factory p0" by (simp add: made_by_factory_def p0_def map_has_def arr_empty_def)
  moreover have "inj (onHydrate p0)" using assms(3) by (simp add: p0_def)
  ultimately obtain p' where "SlowPool_hydrate (of_nat (nat \<lfloor>n0\<rfloor>)) p0 = Return () p'"
    and "made_by_factory p'" and "hydrateCalls p' = hydrateCalls p0 + nat \<lfloor>n0\<rfloor>"
    and "indexInPool p' = indexInPool p0 + int (nat \<lfloor>n0\<rfloor>)"
    and "config p' = config p0" and "onHydrate p' = onHydrate p0"
    using SlowPool_hydrate_of_nat [of p0 "nat \<lfloor>n0\<rfloor>"] by blast
  moreover from this(1) new n0 have "p' = p" by simp
  moreover from calculation assms(2) have "n = n0" by (simp add: p0_def)
  ultimately show ?thesis using n0 by (simp add: p0_def)
qed

lemma SlowPool_getOne_available:
  assumes "indexInPool p \<noteq> 0" and "made_by_factory p"
  shows "\<exists>v p'. SlowPool_getOne p = Return v p' \<and> made_by_factory p' \<and>
           hydrateCalls p' = hydrateCalls p \<and> indexInPool p' = indexInPool p - 1 \<and>
           config p' = config p \<and> onHydrate p' = onHydrate p"
proof -
  let ?v = "arr_get (pool p) (indexInPool p - 1)"
  let ?p' = "p\<lparr>indexInPool := indexInPool p - 1,
               isAvailableMap := (isAvailableMap p)(?v \<mapsto> False)\<rparr>"
  have get: "SlowPool_getOne p = Return ?v ?p'"
    using assms(1) by (simp add: SlowPool_getOne_def Let_def)
  have v: "?v = None \<or> ?v \<in> Some ` onHydrate p ` {..<hydrateCalls p}"
    using assms(2) by (cases ?v) (auto simp: made_by_factory_def arr_get_def)
  have "made_by_factory ?p'"
    unfolding made_by_factory_def
  proof (intro conjI allI impI)
    fix key assume "map_has (isAvailableMap ?p') key"
    then have "key = ?v \<or> map_has (isAvailableMap p) key"
      by (simp add: map_has_def split: if_splits)
    then show "key = None \<or> key \<in> Some ` onHydrate ?p' ` {..<hydrateCalls ?p'}"
      using assms(2) v by (auto simp: made_by_factory_def)
  next
    fix i w assume "elems (pool ?p') i = Some w"
    then show "w \<in> onHydrate ?p' ` {..<hydrateCalls ?p'}"
      using assms(2) by (simp add: made_by_factory_def)
  qed
  with get show ?thesis by simp
qed

lemma SlowPool_getMany_available:
  "int k \<le> indexInPool p \<Longrightarrow> made_by_factory p \<Longrightarrow>
   \<exists>vs p'. SlowPool_getMany k p = Return vs p' \<and> made_by_factory p' \<and>
           hydrateCalls p' = hydrateCalls p \<and> indexInPool p' = indexInPool p - int k \<and>
           config p' = config p \<and> onHydrate p' = onHydrate p"
proof (induction k arbitrary: p)
  case 0
  then show ?case by simp
next
  case (Suc k)
  then have "indexInPool p \<noteq> 0" by auto
  from SlowPool_getOne_available [OF this Suc.prems(2)] obtain v p1 where
    p1: "SlowPool_getOne p = Return v p1" "made_by_factory p1" "hydrateCalls p1 = hydrateCalls p"
      "indexInPool p1 = indexInPool p - 1" "config p1 = config p" "onHydrate p1 = onHydrate p"
    by blast
  then have "int k \<le> indexInPool p1" using Suc.prems(1) by simp
  from Suc.IH [OF this p1(2)] obtain vs p' where
    "SlowPool_getMany k p1 = Return vs p'" "made_by_factory p'" "hydrateCalls p' = hydrateCalls p1"
    "indexInPool p' = indexInPool p1 - int k" "config p' = config p1" "onHydrate p' = onHydrate p1"
    by blast
  with p1 show ?case by simp
qed

lemma SlowPool_getOne_exhausted:
  assumes "indexInPool p = 0" and "autoHydrateSize (config p) = Some (of_nat m)"
    and "inj (onHydrate p)" and "made_by_factory p"
  shows "\<exists>v p'. SlowPool_getOne p = Return v p' \<and> hydrateCalls p' = hydrateCalls p + m"
proof -
  obtain p1 where "SlowPool_hydrate (of_nat m) p = Return () p1"
    and "hydrateCalls p1 = hydrateCalls p + m"
    using SlowPool_hydrate_of_nat [OF assms(3,4), of m] by auto
  then show ?thesis using assms(1,2) by (simp add: SlowPool_getOne_def Let_def)
qed

lemma SlowPool_counts:
  assumes "SlowPool_new gen rel cfg = Return () p" and "initialSize (config p) = Some n"
    and "autoHydrateSize (config p) = Some (of_nat m)" and "inj gen"
  shows "n = of_nat (nat \<lfloor>n\<rfloor>) \<and>
     (\<forall>k\<le>nat \<lfloor>n\<rfloor>. \<exists>vs p'. SlowPool_getMany k p = Return vs p' \<and> hydrateCalls p' = hydrateCalls p) \<and>
     (\<exists>vs p' v p''. SlowPool_getMany (nat \<lfloor>n\<rfloor>) p = Return vs p' \<and> availableObjects p' = 0 \<and>
        SlowPool_getOne p' = Return v p'' \<and> hydrateCalls p'' = hydrateCalls p' + m)"
proof -
  let ?N = "nat \<lfloor>n\<rfloor>"
  from SlowPool_new_Return [OF assms(1,2,4)]
  have n: "n = of_nat ?N" and idx: "indexInPool p = int ?N" and made: "made_by_factory p"
    and gen: "onHydrate p = gen" by auto
  have many: "\<exists>vs p'. SlowPool_getMany k p = Return vs p' \<and> made_by_factory p' \<and>
           hydrateCalls p' = hydrateCalls p \<and> indexInPool p' = indexInPool p - int k \<and>
           config p' = config p \<and> onHydrate p' = onHydrate p"
    if "k \<le> ?N" for k
  proof -
    have "int k \<le> indexInPool p" unfolding idx using that by (simp only: of_nat_le_iff)
    then show ?thesis using made by (rule SlowPool_getMany_available)
  qed
  have first: "\<forall>k\<le>?N. \<exists>vs p'. SlowPool_getMany k p = Return vs p' \<and> hydrateCalls p' = hydrateCalls p"
    using many by blast
  from many [of ?N] obtain vs p' where
    p': "SlowPool_getMany ?N p = Return vs p'" "made_by_factory p'"
      "indexInPool p' = indexInPool p - int ?N" "config p' = config p" "onHydrate p' = onHydrate p"
    by auto
  have "indexInPool p' = 0" using idx p'(3) by simp
  moreover have "autoHydrateSize (config p') = Some (of_nat m)" using assms(3) p'(4) by simp
  moreover have "inj (onHydrate p')" using assms(4) gen p'(5) by simp
  ultimately obtain v p'' where "SlowPool_getOne p' = Return v p''"
    and "hydrateCalls p'' = hydrateCalls p' + m"
    using SlowPool_getOne_exhausted p'(2) by blast
  with p'(1) \<open>indexInPool p' = 0\<close>
  have "\<exists>vs p' v p''. SlowPool_getMany ?N p = Return vs p' \<and> availableObjects p' = 0 \<and>
        SlowPool_getOne p' = Return v p'' \<and> hydrateCalls p'' = hydrateCalls p' + m"
    by (auto simp: availableObjects_def)
  with n first show ?thesis by blast
qed

subsection \<open>The checks of SlowPool\<close>

lemma SlowPool_hydrate_tracked:
  "map_has (isAvailableMap p) (Some (onHydrate p (hydrateCalls p))) \<Longrightarrow>
   thrown (SlowPool_hydrate_loop (Suc k) p) = Some DuplicateRecordError"
  by (simp add: Let_def)

lemma SlowPool_new_same_instance:
  "thrown (SlowPool_new (\<lambda>_. 0 :: nat) False \<lparr>initialSize = Some 5, autoHydrateSize = None\<rparr>)
     = Some DuplicateRecordError"
  by (simp add: pool_defs eval_nat_numeral)

lemma SlowPool_release_not_tracked:
  "\<not> map_has (isAvailableMap p) (Some object) \<Longrightarrow>
   SlowPool_release object p = Throw InvalidReleaseError p"
  by (simp add: SlowPool_release_def)

lemma SlowPool_release_available:
  "isAvailableMap p (Some object) = Some True \<Longrightarrow>
   SlowPool_release object p = Throw InvalidReleaseError p"
  by (simp add: SlowPool_release_def)

lemma SlowPool_release_never_acquired:
  "thrown (SlowPool_release 0 single_SlowPool) = Some InvalidReleaseError \<and>
   thrown (SlowPool_release 7 single_SlowPool) = Some InvalidReleaseError"
  by (simp add: single_SlowPool_def pool_defs)

text \<open>
  C3. The checked pool refuses a factory that returns a tracked instance
  (\<open>SlowPool_hydrate_tracked\<close>, \<open>SlowPool_new_same_instance\<close>) and the release of an object
  it never handed out (\<open>SlowPool_release_not_tracked\<close>, \<open>SlowPool_release_available\<close>). The
  third part of the claim, that releasing an acquired object a second time fails with an
  InvalidReleaseError, does not hold of the code: \<open>release\<close> never sets the object's entry
  of \<open>_isAvailableMap\<close> back to \<open>true\<close>, so the entry stays \<open>false\<close> after \<open>getOne\<close> and the
  second release goes through. On a pool holding the single object \<open>0\<close>: \<open>getOne\<close> returns
  \<open>0\<close>, the first \<open>release\<close> returns, the second \<open>release\<close> returns as well, and the pool then
  counts two available objects although the factory was called once.
\<close>

theorem SlowPool_double_release_returns:
  "returned (SlowPool_getOne single_SlowPool) = Some (Some 0) \<and>
   thrown (SlowPool_release 0 (state_of (SlowPool_getOne single_SlowPool))) = None \<and>
   thrown (SlowPool_release 0
     (state_of (SlowPool_release 0 (state_of (SlowPool_getOne single_SlowPool))))) = None \<and>
   availableObjects
     (state_of (SlowPool_release 0
       (state_of (SlowPool_release 0 (state_of (SlowPool_getOne single_SlowPool)))))) = 2 \<and>
   hydrateCalls
     (state_of (SlowPool_release 0
       (state_of (SlowPool_release 0 (state_of (SlowPool_getOne single_SlowPool)))))) = 1"
  by (simp add: single_SlowPool_def availableObjects_def pool_defs)

subsection \<open>Factory calls\<close>

text \<open>
  C7, as amended. A FastPool, or a SlowPool whose factory returns a different instance at
  every call, constructed with \<open>initialSize\<close> \<open>n\<close> and an \<open>autoHydrateSize\<close> that is a natural
  number \<open>m\<close>, where \<open>n + m\<close> is at most \<open>2^32 - 1\<close>, the largest length of an array: \<open>n\<close> is a
  natural number, each of the first \<open>n\<close> calls of \<open>getOne\<close> returns and leaves the number of
  factory calls as it was after construction, and the next \<open>getOne\<close>, made with no object
  available, returns after exactly \<open>m\<close> more factory calls.
\<close>

theorem pool_hydration_counts:
  "(FastPool_new gen rel cfg = Return () p \<and> initialSize (config p) = Some n \<and>
    autoHydrateSize (config p) = Some (of_nat m) \<and> n + of_nat m \<le> 2 ^ 32 - 1 \<longrightarrow>
      n = of_nat (nat \<lfloor>n\<rfloor>) \<and>
      (\<forall>k\<le>nat \<lfloor>n\<rfloor>. \<exists>vs p'. FastPool_getMany k p = Return vs p' \<and>
          hydrateCalls p' = hydrateCalls p) \<and>
      (\<exists>vs p' v p''. FastPool_getMany (nat \<lfloor>n\<rfloor>) p = Return vs p' \<and> availableObjects p' = 0 \<and>
          FastPool_getOne p' = Return v p'' \<and> hydrateCalls p'' = hydrateCalls p' + m)) \<and>
   (SlowPool_new gen' rel' cfg' = Return () q \<and> initialSize (config q) = Some n' \<and>
    autoHydrateSize (config q) = Some (of_nat m') \<and> inj gen' \<and>
    n' + of_nat m' \<le> 2 ^ 32 - 1 \<longrightarrow>
      n' = of_nat (nat \<lfloor>n'\<rfloor>) \<and>
      (\<forall>k\<le>nat \<lfloor>n'\<rfloor>. \<exists>vs q'. SlowPool_getMany k q = Return vs q' \<and>
          hydrateCalls q' = hydrateCalls q) \<and>
      (\<exists>vs q' v q''. SlowPool_getMany (nat \<lfloor>n'\<rfloor>) q = Return vs q' \<and> availableObjects q' = 0 \<and>
          SlowPool_getOne q' = Return v q'' \<and> hydrateCalls q'' = hydrateCalls q' + m'))"
  using FastPool_counts [of gen rel cfg p n m] SlowPool_counts [of gen' rel' cfg' q n' m']
  by blast

theorem pool_hydration_counts_witness:
  "FastPool_new id False example_config = Return () example_FastPool \<and>
   initialSize (config example_FastPool) = Some 5 \<and>
   autoHydrateSize (config example_FastPool) = Some 3 \<and>
   (5 :: rat) + 3 \<le> 2 ^ 32 - 1 \<and>
   (\<exists>vs p'. FastPool_getMany 5 example_FastPool = Return vs p' \<and>
      hydrateCalls p' = hydrateCalls example_FastPool) \<and>
   (\<exists>vs p' v p''. FastPool_getMany 5 example_FastPool = Return vs p' \<and> availableObjects p' = 0 \<and>
      FastPool_getOne p' = Return v p'' \<and> hydrateCalls p'' = hydrateCalls p' + 3) \<and>
   SlowPool_new id False example_config = Return () example_SlowPool \<and>
   initialSize (config example_SlowPool) = Some 5 \<and>
   autoHydrateSize (config example_SlowPool) = Some 3 \<and> inj (id :: nat \<Rightarrow> nat) \<and>
   (\<exists>vs q'. SlowPool_getMany 5 example_SlowPool = Return vs q' \<and>
      hydrateCalls q' = hydrateCalls example_SlowPool) \<and>
   (\<exists>vs q' v q''. SlowPool_getMany 5 example_SlowPool = Return vs q' \<and> availableObjects q' = 0 \<and>
      SlowPool_getOne q' = Return v q'' \<and> hydrateCalls q'' = hydrateCalls q' + 3)"
proof -
  have f1: "FastPool_new id False example_config = Return () example_FastPool"
    by (simp add: example_FastPool_def example_config_def pool_defs)
  have f2: "initialSize (config example_FastPool) = Some 5"
    by (simp add: example_FastPool_def example_config_def pool_defs eval_nat_numeral)
  have f3: "autoHydrateSize (config example_FastPool) = Some (of_nat 3)"
    by (simp add: example_FastPool_def example_config_def pool_defs eval_nat_numeral)
  have s1: "SlowPool_new id False example_config = Return () example_SlowPool"
    by (simp add: example_SlowPool_def example_config_def pool_defs eval_nat_numeral)
  have s2: "initialSize (config example_SlowPool) = Some 5"
    by (simp add: example_SlowPool_def example_config_def pool_defs eval_nat_numeral)
  have s3: "autoHydrateSize (config example_SlowPool) = Some (of_nat 3)"
    by (simp add: example_SlowPool_def example_config_def pool_defs eval_nat_numeral)
  have five: "nat \<lfloor>5 :: rat\<rfloor> = 5" by simp
  have below: "(5 :: rat) + of_nat 3 \<le> 2 ^ 32 - 1" "(5 :: rat) + 3 \<le> 2 ^ 32 - 1" by simp_all
  note inst = pool_hydration_counts [of id False example_config example_FastPool 5 3
      id False example_config example_SlowPool 5 3, unfolded five]
  from inst f1 f2 f3 below(1) have fast:
    "(\<forall>k\<le>5. \<exists>vs p'. FastPool_getMany k example_FastPool = Return vs p' \<and>
          hydrateCalls p' = hydrateCalls example_FastPool) \<and>
     (\<exists>vs p' v p''. FastPool_getMany 5 example_FastPool = Return vs p' \<and> availableObjects p' = 0 \<and>
          FastPool_getOne p' = Return v p'' \<and> hydrateCalls p'' = hydrateCalls p' + 3)"
    by blast
  from inst s1 s2 s3 below(1) have slow:
    "(\<forall>k\<le>5. \<exists>vs q'. SlowPool_getMany k example_SlowPool = Return vs q' \<and>
          hydrateCalls q' = hydrateCalls example_SlowPool) \<and>
     (\<exists>vs q' v q''. SlowPool_getMany 5 example_SlowPool = Return vs q' \<and> availableObjects q' = 0 \<and>
          SlowPool_getOne q' = Return v q'' \<and> hydrateCalls q'' = hydrateCalls q' + 3)"
    by (simp only: inj_on_id) blast
  from fast have fast5: "\<exists>vs p'. FastPool_getMany 5 example_FastPool = Return vs p' \<and>
      hydrateCalls p' = hydrateCalls example_FastPool" by blast
  from slow have slow5: "\<exists>vs q'. SlowPool_getMany 5 example_SlowPool = Return vs q' \<and>
      hydrateCalls q' = hydrateCalls example_SlowPool" by blast
  from f1 f2 f3 s1 s2 s3 below(2) fast fast5 slow slow5 show ?thesis by simp
qed

text \<open>
  C7 as stated fails for the checked pool when the factory returns a tracked instance: the
  pool of one object made by a factory that always returns the same instance (the pool of
  SlowPool's own tests, with the default \<open>autoHydrateSize\<close> of 10) is constructed, its first
  \<open>getOne\<close> returns the object and leaves none available, and its second \<open>getOne\<close> throws a
  DuplicateRecordError after one factory call, not ten.
\<close>

theorem pool_hydration_counts_counterexample:
  "thrown (SlowPool_new (\<lambda>_. 0 :: nat) False \<lparr>initialSize = Some 1, autoHydrateSize = None\<rparr>)
     = None \<and>
   initialSize (config same_instance_SlowPool) = Some 1 \<and>
   autoHydrateSize (config same_instance_SlowPool) = Some 10 \<and>
   returned (SlowPool_getOne same_instance_SlowPool) = Some (Some 0) \<and>
   hydrateCalls (state_of (SlowPool_getOne same_instance_SlowPool))
     = hydrateCalls same_instance_SlowPool \<and>
   availableObjects (state_of (SlowPool_getOne same_instance_SlowPool)) = 0 \<and>
   thrown (SlowPool_getOne (state_of (SlowPool_getOne same_instance_SlowPool)))
     = Some DuplicateRecordError \<and>
   hydrateCalls (state_of (SlowPool_getOne (state_of (SlowPool_getOne same_instance_SlowPool))))
     = hydrateCalls (state_of (SlowPool_getOne same_instance_SlowPool)) + 1"
  by (simp add: same_instance_SlowPool_def availableObjects_def pool_defs eval_nat_numeral)

section \<open>The grid: proofs\<close>

lemma floor_divide_numeral_rat [simp]:
  "\<lfloor>numeral a / numeral b :: rat\<rfloor> = numeral a div numeral b"
  by (metis floor_divide_of_int_eq of_int_numeral)

lemma floor_one_divide_numeral_rat [simp]:
  "\<lfloor>1 / numeral b :: rat\<rfloor> = 1 div numeral b"
  by (metis floor_divide_of_int_eq of_int_numeral of_int_1)

lemma ceiling_divide_numeral_rat [simp]:
  "\<lceil>numeral a / numeral b :: rat\<rceil> = - (- numeral a div numeral b)"
proof -
  have "\<lfloor>of_int (- numeral a) / of_int (numeral b) :: rat\<rfloor> = - numeral a div numeral b"
    by (rule floor_divide_of_int_eq)
  then show ?thesis by (simp add: ceiling_def)
qed

lemma toInt32_small:
  assumes "0 \<le> q" and "\<lfloor>q\<rfloor> < 2 ^ 31"
  shows "toInt32 q = \<lfloor>q\<rfloor>"
proof -
  have "0 \<le> \<lfloor>q\<rfloor>" using assms(1) by simp
  with assms(2) have "(\<lfloor>q\<rfloor> + 2 ^ 31) mod 2 ^ 32 = \<lfloor>q\<rfloor> + 2 ^ 31"
    by (intro mod_pos_pos_trivial) simp_all
  with assms(1) show ?thesis unfolding toInt32_def by simp
qed

lemma bucketIndex_in_range:
  assumes "0 \<le> x" and "x < extent" and "0 < w" and "\<lceil>extent / w\<rceil> \<le> 2 ^ 31"
  shows "bucketIndex x w = \<lfloor>x / w\<rfloor> \<and> 0 \<le> \<lfloor>x / w\<rfloor> \<and> \<lfloor>x / w\<rfloor> < \<lceil>extent / w\<rceil>"
proof -
  have q: "0 \<le> x / w" using assms(1,3) by simp
  have "x / w < extent / w" using assms(2,3) by (simp add: divide_strict_right_mono)
  then have "of_int \<lfloor>x / w\<rfloor> < (of_int \<lceil>extent / w\<rceil> :: rat)"
    by (meson le_less_trans less_le_trans of_int_floor_le le_of_int_ceiling)
  then have lt: "\<lfloor>x / w\<rfloor> < \<lceil>extent / w\<rceil>" by simp
  with assms(4) have "\<lfloor>x / w\<rfloor> < 2 ^ 31" by linarith
  with q lt show ?thesis by (simp add: bucketIndex_def toInt32_small)
qed

lemma bucket_at_Some_iff:
  "bucket_at bs i j = Some b \<longleftrightarrow>
     0 \<le> i \<and> i < int (length bs) \<and> 0 \<le> j \<and> j < int (length (bs ! nat i)) \<and> b = bs ! nat i ! nat j"
  by (auto simp: bucket_at_def nth_opt_def split: option.splits)

lemma bucket_at_set_bucket:
  "bucket_at bs i j = Some b \<Longrightarrow> bucket_at (set_bucket bs i j b') i j = Some b'"
  by (auto simp: bucket_at_Some_iff set_bucket_def)

lemma dims_wf_bucket:
  assumes "dims_wf s" and "0 \<le> x" "x < gridWidth s" "0 \<le> y" "y < gridHeight s"
  shows "\<exists>b. bucket_at (buckets s) (bucketIndex x (bucketWidth s)) (bucketIndex y (bucketHeight s)) = Some b"
proof -
  from assms have i: "bucketIndex x (bucketWidth s) = \<lfloor>x / bucketWidth s\<rfloor>"
      "0 \<le> \<lfloor>x / bucketWidth s\<rfloor>" "\<lfloor>x / bucketWidth s\<rfloor> < \<lceil>gridWidth s / bucketWidth s\<rceil>"
    using bucketIndex_in_range [of x "gridWidth s" "bucketWidth s"] unfolding dims_wf_def by blast+
  from assms have j: "bucketIndex y (bucketHeight s) = \<lfloor>y / bucketHeight s\<rfloor>"
      "0 \<le> \<lfloor>y / bucketHeight s\<rfloor>" "\<lfloor>y / bucketHeight s\<rfloor> < \<lceil>gridHeight s / bucketHeight s\<rceil>"
    using bucketIndex_in_range [of y "gridHeight s" "bucketHeight s"] unfolding dims_wf_def by blast+
  from assms(1) have len: "length (buckets s) = nat \<lceil>gridWidth s / bucketWidth s\<rceil>"
    and rows: "\<forall>row\<in>set (buckets s). length row = nat \<lceil>gridHeight s / bucketHeight s\<rceil>"
    unfolding dims_wf_def by blast+
  have li: "\<lfloor>x / bucketWidth s\<rfloor> < int (length (buckets s))"
    unfolding len using i(2,3) by linarith
  then have "buckets s ! nat \<lfloor>x / bucketWidth s\<rfloor> \<in> set (buckets s)"
    using i(2) by (intro nth_mem) linarith
  then have "length (buckets s ! nat \<lfloor>x / bucketWidth s\<rfloor>) = nat \<lceil>gridHeight s / bucketHeight s\<rceil>"
    using rows by blast
  then have "\<lfloor>y / bucketHeight s\<rfloor> < int (length (buckets s ! nat \<lfloor>x / bucketWidth s\<rfloor>))"
    using j(2,3) by linarith
  with li i(1,2) j(1,2) show ?thesis unfolding bucket_at_Some_iff by simp
qed

lemma FastPool_hydrate_loop_elems:
  "0 \<le> indexInPool p \<Longrightarrow>
   elems (pool (FastPool_hydrate_loop k p)) i =
     (if indexInPool p \<le> i \<and> i < indexInPool p + int k
      then Some (onHydrate p (hydrateCalls p + nat (i - indexInPool p)))
      else elems (pool p) i)"
proof (induction k arbitrary: p)
  case 0
  then show ?case by auto
next
  case (Suc k)
  let ?p1 = "p\<lparr>pool := arr_set (pool p) (indexInPool p) (onHydrate p (hydrateCalls p)),
          indexInPool := indexInPool p + 1, hydrateCalls := Suc (hydrateCalls p)\<rparr>"
  have "0 \<le> indexInPool ?p1" using Suc.prems by simp
  note ih = Suc.IH [OF this]
  show ?case
  proof (cases "indexInPool p + 1 \<le> i \<and> i < indexInPool p + 1 + int k")
    case True
    then have "nat (i - indexInPool p) = Suc (nat (i - (indexInPool p + 1)))" by linarith
    with True ih show ?thesis by simp
  next
    case False
    with ih have "elems (pool (FastPool_hydrate_loop (Suc k) p)) i = elems (pool ?p1) i" by simp
    with False Suc.prems show ?thesis by (auto simp: arr_set_def)
  qed
qed

lemma mset_concat_update:
  "i < length xs \<Longrightarrow> mset (concat (xs[i := y])) + mset (xs ! i) = mset (concat xs) + mset y"
proof (induction xs arbitrary: i)
  case Nil
  then show ?case by simp
next
  case (Cons x xs)
  then show ?case by (cases i) (simp_all add: ac_simps)
qed

lemma mset_concat_concat_update:
  "i < length bs \<Longrightarrow>
   mset (concat (concat (bs[i := row']))) + mset (concat (bs ! i))
     = mset (concat (concat bs)) + mset (concat row')"
proof (induction bs arbitrary: i)
  case Nil
  then show ?case by simp
next
  case (Cons r bs)
  then show ?case by (cases i) (simp_all add: ac_simps)
qed

lemma mset_set_bucket:
  assumes "bucket_at bs i j = Some b"
  shows "mset (concat (concat (set_bucket bs i j b'))) + mset b = mset (concat (concat bs)) + mset b'"
proof -
  from assms have i: "nat i < length bs" and j: "nat j < length (bs ! nat i)"
    and b: "b = bs ! nat i ! nat j"
    by (auto simp: bucket_at_Some_iff)
  let ?row = "bs ! nat i" and ?row' = "(bs ! nat i)[nat j := b']"
  have row: "mset (concat ?row') + mset b = mset (concat ?row) + mset b'"
    using mset_concat_update [OF j] b by simp
  have "mset (concat (concat (bs[nat i := ?row']))) + mset (concat ?row)
          = mset (concat (concat bs)) + mset (concat ?row')"
    using i by (rule mset_concat_concat_update)
  then have "mset (concat (concat (bs[nat i := ?row']))) + (mset (concat ?row) + mset b')
          = mset (concat (concat bs)) + (mset (concat ?row') + mset b')"
    by (simp add: ac_simps)
  then have "mset (concat (concat (bs[nat i := ?row']))) + (mset (concat ?row') + mset b)
          = mset (concat (concat bs)) + (mset (concat ?row') + mset b')"
    using row by simp
  then show ?thesis by (simp add: set_bucket_def ac_simps)
qed

lemma bucket_at_subset:
  "bucket_at bs i j = Some b \<Longrightarrow> set b \<subseteq> set (concat (concat bs))"
proof -
  assume "bucket_at bs i j = Some b"
  then have i: "nat i < length bs" and j: "nat j < length (bs ! nat i)"
    and b: "b = bs ! nat i ! nat j"
    by (auto simp: bucket_at_Some_iff)
  have "b \<in> set (bs ! nat i)" unfolding b using j by (rule nth_mem)
  moreover have "bs ! nat i \<in> set bs" using i by (rule nth_mem)
  ultimately show ?thesis by auto
qed

lemma FastPool_getOne_pool_ok:
  assumes "pool_ok q F"
  shows "\<exists>a p. FastPool_getOne q = Return (Some a) p \<and> a \<notin> F \<and> pool_ok p (insert a F)"
proof (cases "indexInPool q = 0")
  case False
  let ?k = "indexInPool q - 1"
  from assms have pos: "0 \<le> indexInPool q" and id: "onHydrate q = id"
    and auto10: "autoHydrateSize (config q) = Some 10"
    and slots: "\<forall>i. 0 \<le> i \<and> i < indexInPool q \<longrightarrow>
         (\<exists>a. elems (pool q) i = Some a \<and> a < hydrateCalls q \<and> a \<notin> F)"
    and inj: "inj_on (elems (pool q)) {0..<indexInPool q}"
    and alloc: "\<forall>a\<in>F. a < hydrateCalls q"
    unfolding pool_ok_def by blast+
  from slots pos False obtain a where a: "elems (pool q) ?k = Some a" "a < hydrateCalls q" "a \<notin> F"
    by (metis zle_diff1_eq order_le_less)
  have get: "FastPool_getOne q = Return (Some a) (q\<lparr>indexInPool := ?k\<rparr>)"
    using False a(1) by (simp add: FastPool_getOne_def arr_get_def)
  have others: "\<exists>b. elems (pool q) i = Some b \<and> b < hydrateCalls q \<and> b \<notin> insert a F"
    if "0 \<le> i" "i < ?k" for i
  proof -
    from slots that obtain b where b: "elems (pool q) i = Some b" "b < hydrateCalls q" "b \<notin> F"
      by force
    have "i \<in> {0..<indexInPool q}" "?k \<in> {0..<indexInPool q}" "i \<noteq> ?k"
      using that pos False by auto
    with inj have "elems (pool q) i \<noteq> elems (pool q) ?k" by (auto dest: inj_onD)
    with a(1) b show ?thesis by auto
  qed
  have "inj_on (elems (pool q)) {0..<?k}"
    using inj by (rule inj_on_subset) auto
  with a others pos False id auto10 alloc have "pool_ok (q\<lparr>indexInPool := ?k\<rparr>) (insert a F)"
    unfolding pool_ok_def by auto
  with get a(3) show ?thesis by blast
next
  case True
  let ?h = "hydrateCalls q"
  from assms have id: "onHydrate q = id"
    and auto10: "autoHydrateSize (config q) = Some 10"
    and alloc: "\<forall>a\<in>F. a < ?h"
    unfolding pool_ok_def by blast+
  obtain arr where arr: "arr_add_length (pool q) 10 = Inr arr"
    using arr_add_length_of_nat [of "pool q" 10] by simp
  let ?p1 = "FastPool_hydrate_loop 10 (q\<lparr>pool := arr\<rparr>)"
  have hyd: "FastPool_hydrate 10 q = Return () ?p1"
    using arr by (simp add: FastPool_hydrate_def loop_count_def)
  have el: "elems (pool ?p1) i = (if 0 \<le> i \<and> i < 10 then Some (?h + nat i) else elems arr i)" for i
    using FastPool_hydrate_loop_elems [of "q\<lparr>pool := arr\<rparr>" 10 i] True id by simp
  have idx: "indexInPool ?p1 = 10" and h: "hydrateCalls ?p1 = ?h + 10"
    and cfg: "config ?p1 = config q" and oh: "onHydrate ?p1 = id"
    using True id by (simp_all add: FastPool_hydrate_loop_fields)
  have get: "FastPool_getOne q = Return (Some (?h + 9)) (?p1\<lparr>indexInPool := 9\<rparr>)"
    using True auto10 hyd idx el [of 9] by (simp add: FastPool_getOne_def arr_get_def)
  have fresh: "?h + 9 \<notin> F" using alloc by auto
  have others: "\<exists>b. elems (pool ?p1) i = Some b \<and> b < ?h + 10 \<and> b \<notin> insert (?h + 9) F"
    if "0 \<le> i" "i < 9" for i
    using that el [of i] alloc by (intro exI [of _ "?h + nat i"]) auto
  have "inj_on (elems (pool ?p1)) {0..<9}"
    by (rule inj_onI) (auto simp: el)
  with others h cfg oh auto10 alloc have "pool_ok (?p1\<lparr>indexInPool := 9\<rparr>) (insert (?h + 9) F)"
    unfolding pool_ok_def by auto
  with get fresh show ?thesis by blast
qed

lemma FastPool_release_pool_ok:
  assumes "pool_ok p F" and "a \<in> F"
  shows "pool_ok (FastPool_release a p) (F - {a})"
proof -
  let ?k = "indexInPool p"
  from assms(1) have pos: "0 \<le> ?k" and id: "onHydrate p = id"
    and auto10: "autoHydrateSize (config p) = Some 10"
    and slots: "\<forall>i. 0 \<le> i \<and> i < ?k \<longrightarrow>
         (\<exists>b. elems (pool p) i = Some b \<and> b < hydrateCalls p \<and> b \<notin> F)"
    and inj: "inj_on (elems (pool p)) {0..<?k}"
    and alloc: "\<forall>b\<in>F. b < hydrateCalls p"
    unfolding pool_ok_def by blast+
  let ?e = "(elems (pool p))(?k := Some a)"
  have el: "elems (pool (FastPool_release a p)) = ?e"
    and ix: "indexInPool (FastPool_release a p) = ?k + 1"
    and rest: "onHydrate (FastPool_release a p) = id"
      "autoHydrateSize (config (FastPool_release a p)) = Some 10"
      "hydrateCalls (FastPool_release a p) = hydrateCalls p"
    using id auto10 by (simp_all add: FastPool_release_def arr_set_def)
  have s': "\<exists>b. ?e i = Some b \<and> b < hydrateCalls p \<and> b \<notin> F - {a}" if "0 \<le> i" "i < ?k + 1" for i
  proof (cases "i = ?k")
    case True
    with alloc assms(2) show ?thesis by auto
  next
    case False
    with that slots show ?thesis by force
  qed
  have "inj_on ?e {0..<?k + 1}"
  proof (rule inj_onI)
    fix i j assume ij: "i \<in> {0..<?k + 1}" "j \<in> {0..<?k + 1}" "?e i = ?e j"
    have neq: "elems (pool p) l \<noteq> Some a" if "0 \<le> l" "l < ?k" for l
      using slots that assms(2) by force
    show "i = j"
    proof (cases "i = ?k \<or> j = ?k")
      case True
      show ?thesis
      proof (rule ccontr)
        assume "i \<noteq> j"
        with True ij obtain l where "0 \<le> l" "l < ?k" "elems (pool p) l = Some a"
          by (cases "i = ?k") (auto split: if_splits)
        with neq show False by blast
      qed
    next
      case False
      with ij have "i \<in> {0..<?k}" "j \<in> {0..<?k}" "elems (pool p) i = elems (pool p) j" by auto
      with inj show ?thesis by (auto dest: inj_onD)
    qed
  qed
  with s' pos alloc show ?thesis
    unfolding pool_ok_def el ix rest by auto
qed

lemma insertAt_Return:
  assumes "insertAt x y v s = Return () s'"
  obtains a p b where
    "FastPool_getOne (itemPool s) = Return (Some a) p"
    "bucket_at (buckets s) (bucketIndex x (bucketWidth s)) (bucketIndex y (bucketHeight s)) = Some b"
    "s' = s\<lparr>itemPool := p,
            items := (items s)(a := \<lparr>item_x = x, item_y = y, item_value = v\<rparr>),
            buckets := set_bucket (buckets s) (bucketIndex x (bucketWidth s))
                         (bucketIndex y (bucketHeight s)) (b @ [a]),
            grid_size := grid_size s + 1\<rparr>"
    "0 \<le> x" "x < gridWidth s" "0 \<le> y" "y < gridHeight s"
  using assms
  by (auto simp: insertAt_def Let_def not_le not_less split: if_splits result.splits option.splits)

lemma insertAt_get:
  assumes "insertAt x y v s = Return () s'"
  shows "\<exists>vs. get x y out s' = Inr vs \<and> v \<in> set vs"
proof -
  from assms obtain a p b where
    b: "bucket_at (buckets s) (bucketIndex x (bucketWidth s)) (bucketIndex y (bucketHeight s)) = Some b"
    and s': "s' = s\<lparr>itemPool := p,
            items := (items s)(a := \<lparr>item_x = x, item_y = y, item_value = v\<rparr>),
            buckets := set_bucket (buckets s) (bucketIndex x (bucketWidth s))
                         (bucketIndex y (bucketHeight s)) (b @ [a]),
            grid_size := grid_size s + 1\<rparr>"
    and xy: "0 \<le> x" "x < gridWidth s" "0 \<le> y" "y < gridHeight s"
    by (rule insertAt_Return)
  have "bucket_at (buckets s') (bucketIndex x (bucketWidth s')) (bucketIndex y (bucketHeight s'))
          = Some (b @ [a])"
    using bucket_at_set_bucket [OF b] by (simp add: s')
  moreover have "items s' a = \<lparr>item_x = x, item_y = y, item_value = v\<rparr>" by (simp add: s')
  moreover have "gridWidth s' = gridWidth s" "gridHeight s' = gridHeight s" by (simp_all add: s')
  ultimately show ?thesis using xy by (simp add: get_def not_le not_less)
qed

lemma insertAt_returns:
  assumes "pool_inv s" and "dims_wf s" and "0 \<le> x" "x < gridWidth s" "0 \<le> y" "y < gridHeight s"
  shows "\<exists>s'. insertAt x y v s = Return () s'"
proof -
  from assms(1) have "pool_ok (itemPool s) (set (all_items s))" by (simp add: pool_inv_def)
  from FastPool_getOne_pool_ok [OF this] obtain a p where
    "FastPool_getOne (itemPool s) = Return (Some a) p" by blast
  moreover from dims_wf_bucket [OF assms(2-6)] obtain b where
    "bucket_at (buckets s) (bucketIndex x (bucketWidth s)) (bucketIndex y (bucketHeight s)) = Some b"
    by blast
  ultimately show ?thesis using assms(3-6) by (simp add: insertAt_def Let_def not_le not_less)
qed

lemma length_set_bucket [simp]: "length (set_bucket bs i j b) = length bs"
  by (simp add: set_bucket_def)

lemma set_bucket_rows:
  "row \<in> set (set_bucket bs i j b) \<Longrightarrow> \<exists>row'\<in>set bs. length row = length row'"
  unfolding set_bucket_def
  by (metis in_set_conv_nth length_list_update nth_list_update_eq nth_list_update_neq)

lemma dims_wf_set_bucket:
  assumes "dims_wf s" and "gridWidth s' = gridWidth s" "gridHeight s' = gridHeight s"
    "bucketWidth s' = bucketWidth s" "bucketHeight s' = bucketHeight s"
    "buckets s' = set_bucket (buckets s) i j b"
  shows "dims_wf s'"
  using assms set_bucket_rows [of _ "buckets s" i j b] unfolding dims_wf_def by (metis length_set_bucket)

lemma insertAt_dims_wf: "dims_wf s \<Longrightarrow> insertAt x y v s = Return () s' \<Longrightarrow> dims_wf s'"
  by (erule insertAt_Return) (rule dims_wf_set_bucket, simp_all)

lemma insertAt_all_items:
  assumes "insertAt x y v s = Return () s'"
  obtains a p where "FastPool_getOne (itemPool s) = Return (Some a) p"
    "mset (all_items s') = mset (all_items s) + {#a#}"
    "items s' = (items s)(a := \<lparr>item_x = x, item_y = y, item_value = v\<rparr>)"
    "itemPool s' = p" "grid_size s' = grid_size s + 1"
    "gridWidth s' = gridWidth s" "gridHeight s' = gridHeight s"
    "0 \<le> x" "x < gridWidth s" "0 \<le> y" "y < gridHeight s"
proof -
  from assms obtain a p b where
    g: "FastPool_getOne (itemPool s) = Return (Some a) p" and
    b: "bucket_at (buckets s) (bucketIndex x (bucketWidth s)) (bucketIndex y (bucketHeight s)) = Some b"
    and s': "s' = s\<lparr>itemPool := p,
            items := (items s)(a := \<lparr>item_x = x, item_y = y, item_value = v\<rparr>),
            buckets := set_bucket (buckets s) (bucketIndex x (bucketWidth s))
                         (bucketIndex y (bucketHeight s)) (b @ [a]),
            grid_size := grid_size s + 1\<rparr>"
    and xy: "0 \<le> x" "x < gridWidth s" "0 \<le> y" "y < gridHeight s"
    by (rule insertAt_Return)
  from mset_set_bucket [OF b, of "b @ [a]"]
  have "mset (all_items s') = mset (all_items s) + {#a#}"
    by (simp add: all_items_def s')
  with g xy that show thesis by (simp add: s')
qed

lemma insertAt_size_inv: "size_inv s \<Longrightarrow> insertAt x y v s = Return () s' \<Longrightarrow> size_inv s'"
proof (erule insertAt_all_items)
  fix a assume "size_inv s" "mset (all_items s') = mset (all_items s) + {#a#}"
    "grid_size s' = grid_size s + 1"
  moreover from this(2) have "length (all_items s') = length (all_items s) + 1"
    by (metis size_mset size_union size_single)
  ultimately show "size_inv s'" by (simp add: size_inv_def)
qed

lemma insertAt_pool_inv:
  assumes "pool_inv s" and "insertAt x y v s = Return () s'"
  shows "pool_inv s'"
proof -
  from assms(2) obtain a p where g: "FastPool_getOne (itemPool s) = Return (Some a) p"
    and m: "mset (all_items s') = mset (all_items s) + {#a#}" and p: "itemPool s' = p"
    by (rule insertAt_all_items)
  from assms(1) have ok: "pool_ok (itemPool s) (set (all_items s))" and d: "distinct (all_items s)"
    by (simp_all add: pool_inv_def)
  from FastPool_getOne_pool_ok [OF ok] g
  have a: "a \<notin> set (all_items s)" and ok': "pool_ok p (insert a (set (all_items s)))" by auto
  from m have set: "set (all_items s') = insert a (set (all_items s))"
    by (metis set_mset_mset set_mset_add_mset_insert add_mset_add_single)
  from m have "mset (all_items s') = mset (a # all_items s)" by simp
  then have "distinct (all_items s') = distinct (a # all_items s)"
    by (rule mset_eq_imp_distinct_iff)
  with a d have "distinct (all_items s')" by simp
  with ok' set p show ?thesis by (simp add: pool_inv_def)
qed

lemma insertAt_items_in_bounds:
  assumes "items_in_bounds s" and "insertAt x y v s = Return () s'"
  shows "items_in_bounds s'"
proof -
  from assms(2) obtain a p where g: "FastPool_getOne (itemPool s) = Return (Some a) p"
    and m: "mset (all_items s') = mset (all_items s) + {#a#}"
    and it: "items s' = (items s)(a := \<lparr>item_x = x, item_y = y, item_value = v\<rparr>)"
    and d: "gridWidth s' = gridWidth s" "gridHeight s' = gridHeight s"
    and xy: "0 \<le> x" "x < gridWidth s" "0 \<le> y" "y < gridHeight s"
    by (rule insertAt_all_items)
  from m have set: "set (all_items s') = insert a (set (all_items s))"
    by (metis set_mset_mset set_mset_add_mset_insert add_mset_add_single)
  show ?thesis
    using assms(1) xy unfolding items_in_bounds_def set it d by auto
qed

lemma insertAt_grid_inv: "grid_inv s \<Longrightarrow> insertAt x y v s = Return () s' \<Longrightarrow> grid_inv s'"
  unfolding grid_inv_def
  using insertAt_pool_inv insertAt_items_in_bounds insertAt_size_inv by blast

lemma FastPool_hydrate_loop_len:
  "0 \<le> indexInPool p \<Longrightarrow>
   len (pool (FastPool_hydrate_loop k p)) = max (len (pool p)) (if k = 0 then 0 else nat (indexInPool p + int k))"
proof (induction k arbitrary: p)
  case 0
  then show ?case by simp
next
  case (Suc k)
  let ?p1 = "p\<lparr>pool := arr_set (pool p) (indexInPool p) (onHydrate p (hydrateCalls p)),
          indexInPool := indexInPool p + 1, hydrateCalls := Suc (hydrateCalls p)\<rparr>"
  have "0 \<le> indexInPool ?p1" using Suc.prems by simp
  from Suc.IH [OF this] show ?case
    using Suc.prems by (auto simp: arr_set_def max_def)
qed

lemma FastPool_hydrate_loop_rest:
  "onRelease (FastPool_hydrate_loop k p) = onRelease p"
  "releaseCalls (FastPool_hydrate_loop k p) = releaseCalls p"
  by (induction k arbitrary: p) simp_all

lemma itemPool_init_fields:
  "indexInPool itemPool_init = 1034"
  "hydrateCalls itemPool_init = 1034"
  "onHydrate itemPool_init = id"
  "config itemPool_init = \<lparr>initialSize = Some 10, autoHydrateSize = Some 10\<rparr>"
  "onRelease itemPool_init = False"
  "releaseCalls itemPool_init = []"
  "len (pool itemPool_init) = 1034"
  "elems (pool itemPool_init) i = (if 0 \<le> i \<and> i < 1034 then Some (nat i) else None)"
proof -
  define p0 :: "addr FastPool" where "p0 = \<lparr>indexInPool = 0, pool = arr_empty, onHydrate = id,
    hydrateCalls = 0, onRelease = False, releaseCalls = [],
    config = \<lparr>initialSize = Some 10, autoHydrateSize = Some 10\<rparr>\<rparr>"
  define a0 :: "addr array" where "a0 = \<lparr>elems = (\<lambda>_. None), len = 10\<rparr>"
  define p10 where "p10 = FastPool_hydrate_loop 10 (p0\<lparr>pool := a0\<rparr>)"
  have new: "FastPool_new id False \<lparr>initialSize = None, autoHydrateSize = None\<rparr> = Return () p10"
    by (simp add: FastPool_new_def FastPool_hydrate_def arr_add_length_def Let_def isInteger_def
        loop_count_def arr_empty_def p10_def p0_def a0_def cong: if_cong)
  have f10: "indexInPool p10 = 10" "hydrateCalls p10 = 10" "onHydrate p10 = id"
    "config p10 = \<lparr>initialSize = Some 10, autoHydrateSize = Some 10\<rparr>"
    "onRelease p10 = False" "releaseCalls p10 = []"
    by (simp_all add: p10_def FastPool_hydrate_loop_fields FastPool_hydrate_loop_rest p0_def)
  have l10: "len (pool p10) = 10"
    using FastPool_hydrate_loop_len [of "p0\<lparr>pool := a0\<rparr>" 10] by (simp add: p10_def p0_def a0_def)
  have e10: "elems (pool p10) i = (if 0 \<le> i \<and> i < 10 then Some (nat i) else None)" for i
    using FastPool_hydrate_loop_elems [of "p0\<lparr>pool := a0\<rparr>" 10 i]
    by (simp add: p10_def p0_def a0_def)
  define a1 :: "addr array" where
    "a1 = \<lparr>elems = (\<lambda>i. if 0 \<le> i \<and> i < 10 then Some (nat i) else None), len = 1034\<rparr>"
  have add: "arr_add_length (pool p10) 1024 = Inr a1"
    using arr_add_length_of_nat [of "pool p10" 1024] l10
    by (auto simp: a1_def e10 intro!: array.equality)
  have init: "itemPool_init = FastPool_hydrate_loop 1024 (p10\<lparr>pool := a1\<rparr>)"
    by (simp add: itemPool_init_def new FastPool_hydrate_def add loop_count_def)
  show "indexInPool itemPool_init = 1034" "hydrateCalls itemPool_init = 1034"
    "onHydrate itemPool_init = id"
    "config itemPool_init = \<lparr>initialSize = Some 10, autoHydrateSize = Some 10\<rparr>"
    "onRelease itemPool_init = False" "releaseCalls itemPool_init = []"
    by (simp_all add: init FastPool_hydrate_loop_fields FastPool_hydrate_loop_rest f10)
  show "len (pool itemPool_init) = 1034"
    using FastPool_hydrate_loop_len [of "p10\<lparr>pool := a1\<rparr>" 1024]
    by (simp add: init f10 a1_def)
  show "elems (pool itemPool_init) i = (if 0 \<le> i \<and> i < 1034 then Some (nat i) else None)"
    using FastPool_hydrate_loop_elems [of "p10\<lparr>pool := a1\<rparr>" 1024 i]
    by (auto simp: init f10 a1_def nat_add_distrib)
qed

lemma pool_ok_itemPool_init: "pool_ok itemPool_init {}"
  unfolding pool_ok_def
  by (auto simp: itemPool_init_fields intro!: inj_onI)

lemma concat_concat_replicate [simp]: "concat (concat (replicate n (replicate m []))) = []"
  by (induction n) simp_all

lemma make_buckets_valid:
  assumes "1 \<le> gw" "1 \<le> gh" "1 \<le> bw" "1 \<le> bh"
  shows "make_buckets gw gh bw bh = Some (replicate (nat \<lceil>gw / bw\<rceil>) (replicate (nat \<lceil>gh / bh\<rceil>) []))"
proof -
  have "0 < gw / bw" using assms by simp
  then have "0 < \<lceil>gw / bw\<rceil>" by simp
  then have "nat \<lceil>gw / bw\<rceil> \<noteq> 0" by linarith
  then show ?thesis using assms by (simp add: make_buckets_def bucketsIn_def)
qed

lemma SpatialGrid2D_new_Inr:
  assumes "SpatialGrid2D_new gw gh bw bh d p0 it0 = Inr s"
  shows "1 \<le> gw \<and> 1 \<le> gh \<and> 1 \<le> bw \<and> 1 \<le> bh \<and>
         s = \<lparr>gridWidth = gw, gridHeight = gh, bucketWidth = bw, bucketHeight = bh,
              grid_size = 0, destructorCallback = d, destructorCalls = [],
              buckets = replicate (nat \<lceil>gw / bw\<rceil>) (replicate (nat \<lceil>gh / bh\<rceil>) []),
              itemPool = p0, items = it0\<rparr>"
proof -
  from assms have v: "1 \<le> gw" "1 \<le> gh" "1 \<le> bw" "1 \<le> bh"
    by (auto simp: SpatialGrid2D_new_def not_less split: if_splits)
  with assms make_buckets_valid [OF v] show ?thesis
    by (auto simp: SpatialGrid2D_new_def not_less split: if_splits)
qed

lemma SpatialGrid2D_new_grid_inv:
  assumes "SpatialGrid2D_new gw gh bw bh d p0 it0 = Inr s" and "pool_ok p0 {}"
  shows "grid_inv s"
proof -
  from SpatialGrid2D_new_Inr [OF assms(1)]
  have s: "all_items s = []" "itemPool s = p0" "grid_size s = 0"
    by (auto simp: all_items_def)
  from assms(2) show ?thesis
    unfolding grid_inv_def pool_inv_def items_in_bounds_def size_inv_def s
    by simp
qed

lemma SpatialGrid2D_new_dims_wf:
  assumes "SpatialGrid2D_new gw gh bw bh d p0 it0 = Inr s"
    and "\<lceil>gw / bw\<rceil> \<le> 2 ^ 31" "\<lceil>gh / bh\<rceil> \<le> 2 ^ 31"
  shows "dims_wf s"
proof -
  from SpatialGrid2D_new_Inr [OF assms(1)] assms(2,3) show ?thesis
    unfolding dims_wf_def by auto
qed

lemma example_grid_new: "SpatialGrid2D_new 9 7 3 4 True itemPool_init items_init = Inr example_grid"
  by (simp add: example_grid_def SpatialGrid2D_new_def isInteger_def make_buckets_def bucketsIn_def)

lemma example_grid_inv: "grid_inv example_grid"
  using example_grid_new pool_ok_itemPool_init by (rule SpatialGrid2D_new_grid_inv)

lemma example_grid_dims_wf: "dims_wf example_grid"
  using example_grid_new by (rule SpatialGrid2D_new_dims_wf) simp_all

lemma example_grid_fields:
  "gridWidth example_grid = 9" "gridHeight example_grid = 7"
  "bucketWidth example_grid = 3" "bucketHeight example_grid = 4"
  "grid_size example_grid = 0" "destructorCallback example_grid = True"
  "destructorCalls example_grid = []"
  "buckets example_grid = [[[], []], [[], []], [[], []]]"
  "itemPool example_grid = itemPool_init" "items example_grid = items_init"
proof -
  have "nat \<lceil>9 / 3 :: rat\<rceil> = 3" "nat \<lceil>7 / 4 :: rat\<rceil> = 2" by simp_all
  with SpatialGrid2D_new_Inr [OF example_grid_new]
  have eq: "example_grid = \<lparr>gridWidth = 9, gridHeight = 7, bucketWidth = 3, bucketHeight = 4,
              grid_size = 0, destructorCallback = True, destructorCalls = [],
              buckets = replicate 3 (replicate 2 []),
              itemPool = itemPool_init, items = items_init\<rparr>"
    by simp
  show "gridWidth example_grid = 9" "gridHeight example_grid = 7"
    "bucketWidth example_grid = 3" "bucketHeight example_grid = 4"
    "grid_size example_grid = 0" "destructorCallback example_grid = True"
    "destructorCalls example_grid = []"
    "buckets example_grid = [[[], []], [[], []], [[], []]]"
    "itemPool example_grid = itemPool_init" "items example_grid = items_init"
    unfolding eq by (simp_all add: eval_nat_numeral)
qed

lemmas grid_eval =
  insertAt_def get_def removeAt_def removeAllAt_def move_def resize_def resize_to_def clear_def clear_item_def
  forEach_def all_items_def getAll_def getFiltered_def getFirst_def bucket_entries_def records_def record_of_def
  FastPool_getOne_def FastPool_release_def FastPool_hydrate_def arr_get_def arr_set_def
  arr_add_length_def loop_count_def isInteger_def
  bucket_at_def nth_opt_def set_bucket_def bucketIndex_def toInt32_def
  make_buckets_def bucketsIn_def
  example_grid_fields itemPool_init_fields items_init_def Let_def

lemma forEach_records: "forEach s = records s (all_items s)"
  by (simp add: forEach_def records_def record_of_def)


text \<open>
  C8. After an \<open>insertAt(x, y, v)\<close> that returned, \<open>get(x, y)\<close> (with or without an \<open>out\<close>
  array) returns a collection that contains \<open>v\<close> itself, whatever else the bucket holds; and
  in a grid whose buckets cover it, \<open>insertAt\<close> returns for every coordinate within the
  bounds.
\<close>

theorem insertAt_then_get:
  "(insertAt x y v s = Return () s' \<longrightarrow> (\<exists>vs. get x y out s' = Inr vs \<and> v \<in> set vs)) \<and>
   (grid_inv s \<and> dims_wf s \<and> 0 \<le> x \<and> x < gridWidth s \<and> 0 \<le> y \<and> y < gridHeight s \<longrightarrow>
      (\<exists>s'. insertAt x y v s = Return () s'))"
  using insertAt_get [of x y v s s' out] insertAt_returns [of s x y v]
  by (auto simp: grid_inv_def)

theorem insertAt_then_get_witness:
  "grid_inv example_grid \<and> dims_wf example_grid \<and>
   (0 :: rat) \<le> 1 \<and> 1 < gridWidth example_grid \<and> (0 :: rat) \<le> 2 \<and> 2 < gridHeight example_grid \<and>
   insertAt 1 2 (Element 5) example_grid
     = Return () (state_of (insertAt 1 2 (Element 5) example_grid)) \<and>
   get 1 2 None (state_of (insertAt 1 2 (Element 5) example_grid)) = Inr [Element 5] \<and>
   (\<exists>vs. get 1 2 None (state_of (insertAt 1 2 (Element 5) example_grid)) = Inr vs \<and>
      Element 5 \<in> set vs)"
proof -
  have pre: "grid_inv example_grid \<and> dims_wf example_grid \<and>
     (0 :: rat) \<le> 1 \<and> 1 < gridWidth example_grid \<and> (0 :: rat) \<le> 2 \<and> 2 < gridHeight example_grid"
    by (simp add: example_grid_inv example_grid_dims_wf example_grid_fields)
  note inst = insertAt_then_get [of 1 2 "Element 5" example_grid
      "state_of (insertAt 1 2 (Element 5) example_grid)" None]
  from inst pre obtain s' where "insertAt 1 2 (Element 5) example_grid = Return () s'" by blast
  then have ret: "insertAt 1 2 (Element 5) example_grid
     = Return () (state_of (insertAt 1 2 (Element 5) example_grid))" by simp
  with inst have "\<exists>vs. get 1 2 None (state_of (insertAt 1 2 (Element 5) example_grid)) = Inr vs \<and>
      Element 5 \<in> set vs" by blast
  moreover have "get 1 2 None (state_of (insertAt 1 2 (Element 5) example_grid)) = Inr [Element 5]"
    by (simp add: grid_eval)
  ultimately show ?thesis using pre ret by blast
qed




lemma in_set_enumerate0: "(k, x) \<in> set (enumerate 0 xs) \<longleftrightarrow> k < length xs \<and> x = xs ! k"
  by (auto simp: in_set_enumerate_eq)

lemma in_bucket_entries:
  "(i, j, item) \<in> set (bucket_entries s) \<longleftrightarrow>
     i < length (buckets s) \<and> j < length (buckets s ! i) \<and> item \<in> set (buckets s ! i ! j)"
proof -
  have inner: "(i, j, item) \<in> set (concat (map (\<lambda>(y, bucket). map (\<lambda>item. (x, y, item)) bucket)
                  (enumerate 0 row)))
      \<longleftrightarrow> i = x \<and> j < length row \<and> item \<in> set (row ! j)" for x row
  proof
    assume "(i, j, item) \<in> set (concat (map (\<lambda>(y, bucket). map (\<lambda>item. (x, y, item)) bucket)
                  (enumerate 0 row)))"
    then show "i = x \<and> j < length row \<and> item \<in> set (row ! j)"
      by (auto simp: in_set_enumerate0)
  next
    assume r: "i = x \<and> j < length row \<and> item \<in> set (row ! j)"
    then have "(j, row ! j) \<in> set (enumerate 0 row)" by (simp add: in_set_enumerate0)
    moreover have "(i, j, item) \<in> set (case (j, row ! j) of (y, bucket) \<Rightarrow> map (\<lambda>item. (x, y, item)) bucket)"
      using r by simp
    ultimately show "(i, j, item) \<in> set (concat (map (\<lambda>(y, bucket). map (\<lambda>item. (x, y, item)) bucket)
                  (enumerate 0 row)))"
      unfolding set_concat set_map by blast
  qed
  show ?thesis
  proof
    assume "(i, j, item) \<in> set (bucket_entries s)"
    then obtain p where "p \<in> set (enumerate 0 (buckets s))"
      and "(i, j, item) \<in> set (case p of (x, row) \<Rightarrow>
        concat (map (\<lambda>(y, bucket). map (\<lambda>item. (x, y, item)) bucket) (enumerate 0 row)))"
      unfolding bucket_entries_def set_concat set_map by blast
    moreover obtain x row where "p = (x, row)" by (cases p)
    ultimately have "(x, row) \<in> set (enumerate 0 (buckets s))"
      and "(i, j, item) \<in> set (concat (map (\<lambda>(y, bucket). map (\<lambda>item. (x, y, item)) bucket)
                  (enumerate 0 row)))"
      by simp_all
    then show "i < length (buckets s) \<and> j < length (buckets s ! i) \<and> item \<in> set (buckets s ! i ! j)"
      unfolding inner in_set_enumerate0 by simp
  next
    assume r: "i < length (buckets s) \<and> j < length (buckets s ! i) \<and> item \<in> set (buckets s ! i ! j)"
    then have "(i, buckets s ! i) \<in> set (enumerate 0 (buckets s))" by (simp add: in_set_enumerate0)
    moreover have "(i, j, item) \<in> set (case (i, buckets s ! i) of (x, row) \<Rightarrow>
        concat (map (\<lambda>(y, bucket). map (\<lambda>item. (x, y, item)) bucket) (enumerate 0 row)))"
      unfolding prod.case inner using r by simp
    ultimately show "(i, j, item) \<in> set (bucket_entries s)"
      unfolding bucket_entries_def set_concat set_map by blast
  qed
qed

lemma set_getFiltered:
  "set (getFiltered callback s) =
     {item_value (items s item) | i j item.
        i < length (buckets s) \<and> j < length (buckets s ! i) \<and> item \<in> set (buckets s ! i ! j) \<and>
        callback (item_value (items s item)) (of_nat i) (of_nat j)}"
proof -
  have "set (getFiltered callback s) =
      (\<lambda>(i, j, item). item_value (items s item)) `
        {e \<in> set (bucket_entries s). case e of (i, j, item) \<Rightarrow>
           callback (item_value (items s item)) (of_nat i) (of_nat j)}"
    by (simp add: getFiltered_def)
  also have "\<dots> = {item_value (items s item) | i j item.
        (i, j, item) \<in> set (bucket_entries s) \<and>
        callback (item_value (items s item)) (of_nat i) (of_nat j)}"
    by (auto simp: image_iff) blast
  finally show ?thesis by (simp add: in_bucket_entries)
qed

lemma in_all_items:
  "item \<in> set (all_items s) \<longleftrightarrow>
     (\<exists>i j. i < length (buckets s) \<and> j < length (buckets s ! i) \<and> item \<in> set (buckets s ! i ! j))"
proof
  assume "item \<in> set (all_items s)"
  then obtain row bucket where "row \<in> set (buckets s)" "bucket \<in> set row" "item \<in> set bucket"
    by (auto simp: all_items_def)
  then show "\<exists>i j. i < length (buckets s) \<and> j < length (buckets s ! i) \<and> item \<in> set (buckets s ! i ! j)"
    by (metis in_set_conv_nth)
next
  assume "\<exists>i j. i < length (buckets s) \<and> j < length (buckets s ! i) \<and> item \<in> set (buckets s ! i ! j)"
  then obtain i j where "i < length (buckets s)" "j < length (buckets s ! i)" "item \<in> set (buckets s ! i ! j)"
    by blast
  then have "buckets s ! i \<in> set (buckets s)" "buckets s ! i ! j \<in> set (buckets s ! i)"
    "item \<in> set (buckets s ! i ! j)" by simp_all
  then show "item \<in> set (all_items s)" unfolding all_items_def set_concat by blast
qed

lemma set_forEach:
  "set (forEach s) =
     {(item_value (items s item), item_x (items s item), item_y (items s item)) | i j item.
        i < length (buckets s) \<and> j < length (buckets s ! i) \<and> item \<in> set (buckets s ! i ! j)}"
  unfolding forEach_def set_map using in_all_items [of _ s] by blast

lemma getFirst_getFiltered:
  "getFirst callback s = (case getFiltered callback s of [] \<Rightarrow> Undefined | v # _ \<Rightarrow> v)"
proof -
  have "(case List.find P es of None \<Rightarrow> Undefined | Some (x, y, item) \<Rightarrow> f item)
        = (case map (\<lambda>(x, y, item). f item) (filter P es) of [] \<Rightarrow> Undefined | v # _ \<Rightarrow> v)"
    for P :: "nat \<times> nat \<times> addr \<Rightarrow> bool" and es and f :: "addr \<Rightarrow> 'a element"
    by (induction es) (auto split: prod.splits)
  then show ?thesis unfolding getFirst_def getFiltered_def by blast
qed

lemma example_one_bucketWidth: "1 < bucketWidth (state_of (insertAt 4 5 (Element 0) example_grid))"
  by (simp add: grid_eval)

lemma example_one_buckets: "buckets (state_of (insertAt 4 5 (Element 0) example_grid)) = [[[], []], [[], [1033]], [[], []]]"
  by (simp add: grid_eval)

lemma example_one_item: "items (state_of (insertAt 4 5 (Element 0) example_grid)) 1033 = \<lparr>item_x = 4, item_y = 5, item_value = Element 0\<rparr>"
  by (simp add: grid_eval)

lemma example_one_forEach: "forEach (state_of (insertAt 4 5 (Element 0) example_grid)) = [(Element 0, 4, 5)]"
  by (simp add: forEach_def all_items_def example_one_buckets example_one_item)

lemma example_one_entries: "bucket_entries (state_of (insertAt 4 5 (Element (0::nat)) example_grid)) = [(1, 1, 1033)]"
  by (simp add: bucket_entries_def example_one_buckets enumerate_eq_zip upt_rec)

lemma example_one_filtered:
    "getFiltered (\<lambda>v x y. x = 4 \<and> y = 5) (state_of (insertAt 4 5 (Element 0) example_grid)) = []"
    "getFiltered (\<lambda>v x y. x = 1 \<and> y = 1) (state_of (insertAt 4 5 (Element 0) example_grid))
       = [Element 0]"
    "getFirst (\<lambda>v x y. x = 4 \<and> y = 5) (state_of (insertAt 4 5 (Element 0) example_grid))
       = Undefined"
    "getFirst (\<lambda>v x y. x = 1 \<and> y = 1) (state_of (insertAt 4 5 (Element 0) example_grid))
       = Element 0"
  by (simp_all add: getFiltered_def getFirst_def example_one_entries example_one_item)

text \<open>
  C9. \<open>forEach\<close> calls its callback with the stored coordinates of each item, while
  \<open>getFiltered\<close> and \<open>getFirst\<close> call their predicate with the indices \<open>i\<close>, \<open>j\<close> of the
  bucket that holds the item (\<open>getFirst\<close> returns the first element \<open>getFiltered\<close> would).
  In the grid of 9 by 7 with buckets of 3 by 4 holding one element at (4, 5), \<open>forEach\<close>
  reports (4, 5), and a predicate on the coordinates selects the element at (1, 1), its
  bucket, and not at (4, 5).
\<close>

theorem traversal_callback_coordinates:
  "set (forEach s) =
     {(item_value (items s item), item_x (items s item), item_y (items s item)) | i j item.
        i < length (buckets s) \<and> j < length (buckets s ! i) \<and> item \<in> set (buckets s ! i ! j)} \<and>
   set (getFiltered callback s) =
     {item_value (items s item) | i j item.
        i < length (buckets s) \<and> j < length (buckets s ! i) \<and> item \<in> set (buckets s ! i ! j) \<and>
        callback (item_value (items s item)) (of_nat i) (of_nat j)} \<and>
   getFirst callback s = (case getFiltered callback s of [] \<Rightarrow> Undefined | v # _ \<Rightarrow> v) \<and>
   1 < bucketWidth (state_of (insertAt 4 5 (Element 0) example_grid)) \<and>
   forEach (state_of (insertAt 4 5 (Element 0) example_grid)) = [(Element 0, 4, 5)] \<and>
   getFiltered (\<lambda>v x y. x = 4 \<and> y = 5) (state_of (insertAt 4 5 (Element 0) example_grid)) = [] \<and>
   getFiltered (\<lambda>v x y. x = 1 \<and> y = 1) (state_of (insertAt 4 5 (Element 0) example_grid))
     = [Element 0] \<and>
   getFirst (\<lambda>v x y. x = 4 \<and> y = 5) (state_of (insertAt 4 5 (Element 0) example_grid))
     = Undefined \<and>
   getFirst (\<lambda>v x y. x = 1 \<and> y = 1) (state_of (insertAt 4 5 (Element 0) example_grid))
     = Element 0"
  using set_forEach [of s] set_getFiltered [of callback s] getFirst_getFiltered [of callback s]
    example_one_bucketWidth example_one_forEach example_one_filtered
  by blast

declare removeAt_loop.simps [simp del] removeAllAt_loop.simps [simp del] swap_remove.simps [simp del]

lemma park_fields [simp]:
  "items (park pk a s) = (items s)(a := (items s a)\<lparr>item_value := pk\<rparr>)"
  "itemPool (park pk a s) = FastPool_release a (itemPool s)"
  "grid_size (park pk a s) = grid_size s - 1"
  "buckets (park pk a s) = buckets s"
  "gridWidth (park pk a s) = gridWidth s" "gridHeight (park pk a s) = gridHeight s"
  "bucketWidth (park pk a s) = bucketWidth s" "bucketHeight (park pk a s) = bucketHeight s"
  "destructorCallback (park pk a s) = destructorCallback s"
  "destructorCalls (park pk a s) = destructorCalls s"
  by (simp_all add: park_def)

lemma removeAt_loop_swap_remove:
  "removeAt_loop x y element i n bucket found s =
     swap_remove (\<lambda>it. item_x it = x \<and> item_y it = y \<and> item_value it = element) Undefined
       i n bucket found s"
proof (induction x y element i n bucket found s rule: removeAt_loop.induct)
  case (1 x y element i n bucket found s)
  show ?case
    apply (subst removeAt_loop.simps)
    apply (subst swap_remove.simps)
    using 1 by (simp add: Let_def park_def)
qed

lemma removeAllAt_loop_swap_remove:
  "removeAllAt_loop x y i n bucket s =
     (case swap_remove (\<lambda>it. item_x it = x \<and> item_y it = y) Null i n bucket found s of
        (n', bucket', found', s') \<Rightarrow> (n', bucket', s'))"
proof (induction x y i n bucket s arbitrary: found rule: removeAllAt_loop.induct)
  case (1 x y i n bucket s)
  have eq: "s\<lparr>grid_size := grid_size s - 1,
      items := (items s)(bucket ! i := (items s (bucket ! i))\<lparr>item_value := Null\<rparr>),
      itemPool := FastPool_release (bucket ! i) (itemPool s)\<rparr> = park Null (bucket ! i) s"
    by (simp add: park_def)
  show ?case
  proof (cases "i < n")
    case False
    then show ?thesis
      by (simp add: removeAllAt_loop.simps [of x y i n] swap_remove.simps [of _ _ i n])
  next
    case True
    show ?thesis
    proof (cases "item_x (items s (bucket ! i)) = x \<and> item_y (items s (bucket ! i)) = y")
      case hit: True
      from "1.IH"(1) [OF True refl hit, of True] True hit show ?thesis
        by (simp add: removeAllAt_loop.simps [of x y i n] swap_remove.simps [of _ _ i n] eq Let_def)
    next
      case miss: False
      from "1.IH"(2) [OF True refl miss, of found] True show ?thesis
        by (simp add: removeAllAt_loop.simps [of x y i n] swap_remove.simps [of _ _ i n] Let_def
            if_not_P [OF miss])
    qed
  qed
qed

lemma swap_remove_frame:
  "swap_remove m pk i n b f s = (n', b', f', s') \<Longrightarrow>
   n' \<le> n \<and> length b' = length b \<and> grid_size s' = grid_size s - int (n - n') \<and>
   buckets s' = buckets s \<and> gridWidth s' = gridWidth s \<and> gridHeight s' = gridHeight s \<and>
   bucketWidth s' = bucketWidth s \<and> bucketHeight s' = bucketHeight s \<and>
   destructorCallback s' = destructorCallback s \<and> destructorCalls s' = destructorCalls s"
proof (induction m pk i n b f s arbitrary: n' b' f' s' rule: swap_remove.induct)
  case (1 m pk i n b f s)
  show ?case
  proof (cases "i < n")
    case False
    with "1.prems" show ?thesis by (simp add: swap_remove.simps)
  next
    case True
    show ?thesis
    proof (cases "m (items s (b ! i))")
      case hit: True
      with True "1.prems" have
        "swap_remove m pk i (n - 1) (b[i := b ! (n - 1)]) True (park pk (b ! i) s) = (n', b', f', s')"
        by (simp add: swap_remove.simps [of m pk i n])
      from "1.IH"(1) [OF True hit this] True show ?thesis by auto
    next
      case miss: False
      with True "1.prems" have "swap_remove m pk (i + 1) n b f s = (n', b', f', s')"
        by (simp add: swap_remove.simps [of m pk i n])
      from "1.IH"(2) [OF True miss this] show ?thesis .
    qed
  qed
qed

lemma swap_remove_found:
  "swap_remove m pk i n b f s = (n', b', f', s') \<Longrightarrow>
   (f \<longrightarrow> f') \<and> (\<not> f' \<longrightarrow> n' = n \<and> b' = b \<and> s' = s)"
proof (induction m pk i n b f s arbitrary: n' b' f' s' rule: swap_remove.induct)
  case (1 m pk i n b f s)
  show ?case
  proof (cases "i < n")
    case False
    with "1.prems" show ?thesis by (simp add: swap_remove.simps)
  next
    case True
    show ?thesis
    proof (cases "m (items s (b ! i))")
      case hit: True
      with True "1.prems" have
        "swap_remove m pk i (n - 1) (b[i := b ! (n - 1)]) True (park pk (b ! i) s) = (n', b', f', s')"
        by (simp add: swap_remove.simps [of m pk i n])
      from "1.IH"(1) [OF True hit this] show ?thesis by simp
    next
      case miss: False
      with True "1.prems" have "swap_remove m pk (i + 1) n b f s = (n', b', f', s')"
        by (simp add: swap_remove.simps [of m pk i n])
      from "1.IH"(2) [OF True miss this] show ?thesis .
    qed
  qed
qed

lemma take_nth_drop:
  assumes "i < n" and "n \<le> length b"
  shows "take n b = take i b @ b ! i # drop (Suc i) (take n b)"
proof -
  have "i < length (take n b)" using assms by simp
  from id_take_nth_drop [OF this] show ?thesis using assms by (simp add: min_def)
qed

lemma swap_last_drop:
  assumes "i < n" and "n \<le> length b"
  shows "mset (drop i (take (n - 1) (b[i := b ! (n - 1)]))) = mset (drop (Suc i) (take n b))"
proof (cases "Suc i = n")
  case True
  then show ?thesis by simp
next
  case False
  with assms have lt: "i < n - 1" by simp
  let ?t = "take (n - 1) b"
  have len: "length ?t = n - 1" using assms by simp
  have tn: "take n b = ?t @ [b ! (n - 1)]"
    using assms take_Suc_conv_app_nth [of "n - 1" b] by simp
  have "take (n - 1) (b[i := b ! (n - 1)]) = ?t[i := b ! (n - 1)]"
    by (simp add: take_update_swap)
  moreover have "drop i (?t[i := b ! (n - 1)]) = b ! (n - 1) # drop (Suc i) ?t"
    using lt len by (metis Cons_nth_drop_Suc drop_update_cancel length_list_update lessI nth_list_update_eq)
  ultimately show ?thesis using lt len by (simp add: tn)
qed

lemma swap_last_take:
  assumes "i < n" and "n \<le> length b"
  shows "mset (take n b) = add_mset (b ! i) (mset (take (n - 1) (b[i := b ! (n - 1)])))"
proof -
  let ?b1 = "b[i := b ! (n - 1)]"
  have "take (n - 1) ?b1 = take i (take (n - 1) ?b1) @ drop i (take (n - 1) ?b1)"
    by (rule append_take_drop_id [symmetric])
  moreover have "min i (n - 1) = i" using assms by simp
  then have "take i (take (n - 1) ?b1) = take i b" by simp
  ultimately have "mset (take (n - 1) ?b1) = mset (take i b) + mset (drop (Suc i) (take n b))"
    using swap_last_drop [OF assms] by (metis mset_append)
  moreover have "mset (take n b) = mset (take i b) + add_mset (b ! i) (mset (drop (Suc i) (take n b)))"
    using take_nth_drop [OF assms] by (metis mset_append mset.simps(2))
  ultimately show ?thesis by simp
qed

lemma swap_remove_spec:
  assumes "swap_remove m pk i n b f s = (n', b', f', s')"
    and "n \<le> length b" and "distinct (take n b)"
  shows "\<exists>rs. s' = fold (park pk) rs s \<and>
           mset rs = filter_mset (\<lambda>a. m (items s a)) (mset (drop i (take n b))) \<and>
           mset (take n' b') =
             mset (take i (take n b)) + filter_mset (\<lambda>a. \<not> m (items s a)) (mset (drop i (take n b))) \<and>
           f' = (f \<or> rs \<noteq> [])"
  using assms
proof (induction m pk i n b f s arbitrary: n' b' f' s' rule: swap_remove.induct)
  case (1 m pk i n b f s)
  show ?case
  proof (cases "i < n")
    case False
    with "1.prems" have "n' = n" "b' = b" "f' = f" "s' = s"
      by (simp_all add: swap_remove.simps [of m pk i n])
    with False show ?thesis by (intro exI [of _ "[]"]) simp
  next
    case True
    note split = take_nth_drop [OF True "1.prems"(2)]
    have head: "drop i (take n b) = b ! i # drop (Suc i) (take n b)"
      using True "1.prems"(2) by (metis Cons_nth_drop_Suc length_take min.absorb2 nth_take)
    show ?thesis
    proof (cases "m (items s (b ! i))")
      case hit: True
      let ?b1 = "b[i := b ! (n - 1)]" and ?s1 = "park pk (b ! i) s"
      from True hit "1.prems"(1) have
        run: "swap_remove m pk i (n - 1) ?b1 True ?s1 = (n', b', f', s')"
        by (simp add: swap_remove.simps [of m pk i n])
      have len: "n - 1 \<le> length ?b1" using "1.prems"(2) by simp
      have tk: "mset (take n b) = add_mset (b ! i) (mset (take (n - 1) ?b1))"
        using True "1.prems"(2) by (rule swap_last_take)
      then have "mset (take n b) = mset (b ! i # take (n - 1) ?b1)" by simp
      then have "distinct (take n b) = distinct (b ! i # take (n - 1) ?b1)"
        by (rule mset_eq_imp_distinct_iff)
      with "1.prems"(3) have d1: "distinct (take (n - 1) ?b1)"
        and notin: "b ! i \<notin> set (take (n - 1) ?b1)" by simp_all
      from "1.IH"(1) [OF True hit run len d1] obtain rs where
        rs: "s' = fold (park pk) rs ?s1"
          "mset rs = filter_mset (\<lambda>a. m (items ?s1 a)) (mset (drop i (take (n - 1) ?b1)))"
          "mset (take n' b') = mset (take i (take (n - 1) ?b1)) +
             filter_mset (\<lambda>a. \<not> m (items ?s1 a)) (mset (drop i (take (n - 1) ?b1)))"
          "f' = (True \<or> rs \<noteq> [])"
        by blast
      have dr: "mset (drop i (take (n - 1) ?b1)) = mset (drop (Suc i) (take n b))"
        using True "1.prems"(2) by (rule swap_last_drop)
      have "set (drop i (take (n - 1) ?b1)) \<subseteq> set (take (n - 1) ?b1)" by (rule set_drop_subset)
      with notin have "b ! i \<notin> set (drop i (take (n - 1) ?b1))" by blast
      then have "b ! i \<notin># mset (drop (Suc i) (take n b))" using dr by (metis set_mset_mset)
      then have same: "\<And>a. a \<in># mset (drop (Suc i) (take n b)) \<Longrightarrow>
          m (items ?s1 a) = m (items s a)"
        by auto
      have f1: "filter_mset (\<lambda>a. m (items ?s1 a)) (mset (drop (Suc i) (take n b)))
            = filter_mset (\<lambda>a. m (items s a)) (mset (drop (Suc i) (take n b)))"
        by (rule filter_mset_cong [OF refl]) (rule same)
      have f2: "filter_mset (\<lambda>a. \<not> m (items ?s1 a)) (mset (drop (Suc i) (take n b)))
            = filter_mset (\<lambda>a. \<not> m (items s a)) (mset (drop (Suc i) (take n b)))"
      proof (rule filter_mset_cong [OF refl])
        fix a assume "a \<in># mset (drop (Suc i) (take n b))"
        from same [OF this] show "(\<not> m (items ?s1 a)) = (\<not> m (items s a))" by (rule arg_cong)
      qed
      have "min i (n - 1) = i" "min i n = i" using True by simp_all
      then have ti: "take i (take (n - 1) ?b1) = take i (take n b)" by simp
      have "s' = fold (park pk) (b ! i # rs) s" using rs(1) by simp
      moreover have "mset (b ! i # rs) = filter_mset (\<lambda>a. m (items s a)) (mset (drop i (take n b)))"
      proof -
        from rs(2) have "mset rs = filter_mset (\<lambda>a. m (items s a)) (mset (drop (Suc i) (take n b)))"
          unfolding dr f1 .
        with hit show ?thesis unfolding head by simp
      qed
      moreover have "mset (take n' b') = mset (take i (take n b)) +
          filter_mset (\<lambda>a. \<not> m (items s a)) (mset (drop i (take n b)))"
      proof -
        from rs(3) have "mset (take n' b') = mset (take i (take n b)) +
            filter_mset (\<lambda>a. \<not> m (items s a)) (mset (drop (Suc i) (take n b)))"
          unfolding dr f2 ti .
        with hit show ?thesis unfolding head by simp
      qed
      moreover have "f' = (f \<or> b ! i # rs \<noteq> [])" using rs(4) by simp
      ultimately show ?thesis by blast
    next
      case miss: False
      from True miss "1.prems"(1) have run: "swap_remove m pk (i + 1) n b f s = (n', b', f', s')"
        by (simp add: swap_remove.simps [of m pk i n])
      from "1.IH"(2) [OF True miss run "1.prems"(2,3)] obtain rs where
        rs: "s' = fold (park pk) rs s"
          "mset rs = filter_mset (\<lambda>a. m (items s a)) (mset (drop (i + 1) (take n b)))"
          "mset (take n' b') = mset (take (i + 1) (take n b)) +
             filter_mset (\<lambda>a. \<not> m (items s a)) (mset (drop (i + 1) (take n b)))"
          "f' = (f \<or> rs \<noteq> [])"
        by blast
      have ti: "take (i + 1) (take n b) = take i (take n b) @ [b ! i]"
        using True "1.prems"(2) by (simp add: take_Suc_conv_app_nth)
      have "mset rs = filter_mset (\<lambda>a. m (items s a)) (mset (drop i (take n b)))"
        using rs(2) miss by (simp add: head)
      moreover have "mset (take n' b') = mset (take i (take n b)) +
          filter_mset (\<lambda>a. \<not> m (items s a)) (mset (drop i (take n b)))"
        using rs(3) miss unfolding ti by (simp add: head)
      ultimately show ?thesis using rs(1,4) by blast
    qed
  qed
qed

lemma fold_park_fields [simp]:
  "grid_size (fold (park pk) rs s) = grid_size s - int (length rs)"
  "buckets (fold (park pk) rs s) = buckets s"
  "gridWidth (fold (park pk) rs s) = gridWidth s"
  "gridHeight (fold (park pk) rs s) = gridHeight s"
  "bucketWidth (fold (park pk) rs s) = bucketWidth s"
  "bucketHeight (fold (park pk) rs s) = bucketHeight s"
  "destructorCallback (fold (park pk) rs s) = destructorCallback s"
  "destructorCalls (fold (park pk) rs s) = destructorCalls s"
  by (induction rs arbitrary: s) simp_all

lemma fold_park_items:
  "items (fold (park pk) rs s) a =
     (if a \<in> set rs then (items s a)\<lparr>item_value := pk\<rparr> else items s a)"
  by (induction rs arbitrary: s) auto

lemma fold_park_pool_ok:
  "pool_ok (itemPool s) F \<Longrightarrow> distinct rs \<Longrightarrow> set rs \<subseteq> F \<Longrightarrow>
   pool_ok (itemPool (fold (park pk) rs s)) (F - set rs)"
proof (induction rs arbitrary: s F)
  case Nil
  then show ?case by simp
next
  case (Cons a rs)
  from Cons.prems have "pool_ok (itemPool (park pk a s)) (F - {a})"
    by (simp add: FastPool_release_pool_ok)
  moreover from Cons.prems have "distinct rs" "set rs \<subseteq> F - {a}" by auto
  ultimately have "pool_ok (itemPool (fold (park pk) rs (park pk a s))) (F - {a} - set rs)"
    by (rule Cons.IH)
  moreover have "F - {a} - set rs = F - set (a # rs)" by auto
  ultimately show ?case by simp
qed

lemma set_bucket_id: "bucket_at bs i j = Some b \<Longrightarrow> set_bucket bs i j b = bs"
  by (auto simp: bucket_at_Some_iff set_bucket_def)

lemma length_all_items_set_bucket:
  assumes "bucket_at (buckets s) i j = Some b" and "buckets s' = set_bucket (buckets s) i j b'"
  shows "int (length (all_items s')) = int (length (all_items s)) - int (length b) + int (length b')"
proof -
  from mset_set_bucket [OF assms(1), of b'] assms(2)
  have "mset (all_items s') + mset b = mset (all_items s) + mset b'" by (simp add: all_items_def)
  then have "size (mset (all_items s') + mset b) = size (mset (all_items s) + mset b')" by simp
  then show ?thesis by simp
qed

lemma removeAt_unfold:
  assumes "0 \<le> x" "x < gridWidth s" "0 \<le> y" "y < gridHeight s"
    and "bucket_at (buckets s) (bucketIndex x (bucketWidth s)) (bucketIndex y (bucketHeight s)) = Some b"
    and "swap_remove (\<lambda>it. item_x it = x \<and> item_y it = y \<and> item_value it = v) Undefined
           0 (length b) b False s = (n', b', f', s1)"
  shows "removeAt x y v s =
     (if f' then Return ()
                   (s1\<lparr>buckets := set_bucket (buckets s) (bucketIndex x (bucketWidth s))
                                   (bucketIndex y (bucketHeight s)) (take n' b')\<rparr>)
      else Throw NotFoundError s)"
proof -
  from swap_remove_frame [OF assms(6)] have fr: "buckets s1 = buckets s" by simp
  from swap_remove_found [OF assms(6)] have nf: "\<not> f' \<Longrightarrow> n' = length b \<and> b' = b \<and> s1 = s"
    by simp
  show ?thesis
  proof (cases f')
    case True
    with assms fr show ?thesis
      by (simp add: removeAt_def Let_def removeAt_loop_swap_remove not_le not_less)
  next
    case False
    with nf have "n' = length b" "b' = b" "s1 = s" by simp_all
    with assms False set_bucket_id [OF assms(5)] show ?thesis
      by (simp add: removeAt_def Let_def removeAt_loop_swap_remove not_le not_less)
  qed
qed

lemma removeAt_out_of_bounds:
  "x < 0 \<or> x \<ge> gridWidth s \<or> y < 0 \<or> y \<ge> gridHeight s \<Longrightarrow>
   removeAt x y v s = Throw BoundsError s"
  by (simp add: removeAt_def)

lemma removeAt_no_bucket:
  "\<not> (x < 0 \<or> x \<ge> gridWidth s \<or> y < 0 \<or> y \<ge> gridHeight s) \<Longrightarrow>
   bucket_at (buckets s) (bucketIndex x (bucketWidth s)) (bucketIndex y (bucketHeight s)) = None \<Longrightarrow>
   removeAt x y v s = Throw TypeError s"
  by (simp add: removeAt_def Let_def)

lemma removeAt_Throw:
  assumes "removeAt x y v s = Throw e s'"
  shows "s' = s \<and> (e = BoundsError \<or> e = TypeError \<or> e = NotFoundError)"
proof (cases "x < 0 \<or> x \<ge> gridWidth s \<or> y < 0 \<or> y \<ge> gridHeight s")
  case True
  from removeAt_out_of_bounds [OF True, of v] assms show ?thesis by simp
next
  case inb: False
  show ?thesis
  proof (cases "bucket_at (buckets s) (bucketIndex x (bucketWidth s)) (bucketIndex y (bucketHeight s))")
    case None
    from removeAt_no_bucket [OF inb None, of v] assms show ?thesis by simp
  next
    case (Some b)
    obtain n' b' f' s1 where
      sw: "swap_remove (\<lambda>it. item_x it = x \<and> item_y it = y \<and> item_value it = v) Undefined
           0 (length b) b False s = (n', b', f', s1)"
      using prod_cases4 by blast
    from inb have "0 \<le> x" "x < gridWidth s" "0 \<le> y" "y < gridHeight s" by simp_all
    from removeAt_unfold [OF this Some sw] assms show ?thesis
      by (cases f') simp_all
  qed
qed

lemma removeAt_Return:
  assumes "removeAt x y v s = Return () s'"
  obtains b n' b' s1 where
    "0 \<le> x" "x < gridWidth s" "0 \<le> y" "y < gridHeight s"
    "bucket_at (buckets s) (bucketIndex x (bucketWidth s)) (bucketIndex y (bucketHeight s)) = Some b"
    "swap_remove (\<lambda>it. item_x it = x \<and> item_y it = y \<and> item_value it = v) Undefined
           0 (length b) b False s = (n', b', True, s1)"
    "s' = s1\<lparr>buckets := set_bucket (buckets s) (bucketIndex x (bucketWidth s))
                                   (bucketIndex y (bucketHeight s)) (take n' b')\<rparr>"
proof (cases "x < 0 \<or> x \<ge> gridWidth s \<or> y < 0 \<or> y \<ge> gridHeight s")
  case True
  from removeAt_out_of_bounds [OF True, of v] assms show ?thesis by simp
next
  case inb: False
  then have xy: "0 \<le> x" "x < gridWidth s" "0 \<le> y" "y < gridHeight s" by simp_all
  show ?thesis
  proof (cases "bucket_at (buckets s) (bucketIndex x (bucketWidth s)) (bucketIndex y (bucketHeight s))")
    case None
    from removeAt_no_bucket [OF inb None, of v] assms show ?thesis by simp
  next
    case (Some b)
    obtain n' b' f' s1 where
      sw: "swap_remove (\<lambda>it. item_x it = x \<and> item_y it = y \<and> item_value it = v) Undefined
           0 (length b) b False s = (n', b', f', s1)"
      using prod_cases4 by blast
    from removeAt_unfold [OF xy Some sw] assms have f: "f'"
      and s': "s' = s1\<lparr>buckets := set_bucket (buckets s) (bucketIndex x (bucketWidth s))
                                   (bucketIndex y (bucketHeight s)) (take n' b')\<rparr>"
      by (cases f'; simp)+
    from f sw have "swap_remove (\<lambda>it. item_x it = x \<and> item_y it = y \<and> item_value it = v)
           Undefined 0 (length b) b False s = (n', b', True, s1)" by simp
    from that [OF xy Some this s'] show ?thesis .
  qed
qed

lemma removeAt_size_inv:
  assumes "size_inv s" and "removeAt x y v s = Return () s'"
  shows "size_inv s'"
proof -
  from assms(2) obtain b n' b' s1 where
    b: "bucket_at (buckets s) (bucketIndex x (bucketWidth s)) (bucketIndex y (bucketHeight s)) = Some b"
    and sw: "swap_remove (\<lambda>it. item_x it = x \<and> item_y it = y \<and> item_value it = v) Undefined
           0 (length b) b False s = (n', b', True, s1)"
    and s': "s' = s1\<lparr>buckets := set_bucket (buckets s) (bucketIndex x (bucketWidth s))
                                   (bucketIndex y (bucketHeight s)) (take n' b')\<rparr>"
    by (rule removeAt_Return)
  from swap_remove_frame [OF sw] have fr: "n' \<le> length b" "length b' = length b"
    "grid_size s1 = grid_size s - int (length b - n')" by simp_all
  have "buckets s' = set_bucket (buckets s) (bucketIndex x (bucketWidth s))
                                   (bucketIndex y (bucketHeight s)) (take n' b')"
    by (simp add: s')
  from length_all_items_set_bucket [OF b this] fr
  have "int (length (all_items s')) = int (length (all_items s)) - int (length b) + int n'"
    by simp
  moreover have "grid_size s' = grid_size s - int (length b - n')" using fr by (simp add: s')
  ultimately show ?thesis using assms(1) fr(1) by (simp add: size_inv_def)
qed

lemma removeAllAt_unfold:
  assumes "0 \<le> x" "x < gridWidth s" "0 \<le> y" "y < gridHeight s"
    and "bucket_at (buckets s) (bucketIndex x (bucketWidth s)) (bucketIndex y (bucketHeight s)) = Some b"
    and "swap_remove (\<lambda>it. item_x it = x \<and> item_y it = y) Null 0 (length b) b False s
           = (n', b', f', s1)"
  shows "removeAllAt x y s =
     Return () (s1\<lparr>buckets := set_bucket (buckets s) (bucketIndex x (bucketWidth s))
                                   (bucketIndex y (bucketHeight s)) (take n' b')\<rparr>)"
proof -
  from swap_remove_frame [OF assms(6)] have fr: "buckets s1 = buckets s" by simp
  have "removeAllAt_loop x y 0 (length b) b s = (n', b', s1)"
    using removeAllAt_loop_swap_remove [of x y 0 "length b" b s False] assms(6) by simp
  with assms(1-5) fr show ?thesis
    by (simp add: removeAllAt_def Let_def not_le not_less)
qed

lemma removeAllAt_out_of_bounds:
  "x < 0 \<or> x \<ge> gridWidth s \<or> y < 0 \<or> y \<ge> gridHeight s \<Longrightarrow>
   removeAllAt x y s = Throw BoundsError s"
  by (simp add: removeAllAt_def)

lemma removeAllAt_no_bucket:
  "\<not> (x < 0 \<or> x \<ge> gridWidth s \<or> y < 0 \<or> y \<ge> gridHeight s) \<Longrightarrow>
   bucket_at (buckets s) (bucketIndex x (bucketWidth s)) (bucketIndex y (bucketHeight s)) = None \<Longrightarrow>
   removeAllAt x y s = Throw TypeError s"
  by (simp add: removeAllAt_def Let_def)

lemma removeAllAt_Throw:
  assumes "removeAllAt x y s = Throw e s'"
  shows "s' = s \<and> (e = BoundsError \<or> e = TypeError)"
proof (cases "x < 0 \<or> x \<ge> gridWidth s \<or> y < 0 \<or> y \<ge> gridHeight s")
  case True
  from removeAllAt_out_of_bounds [OF True] assms show ?thesis by simp
next
  case inb: False
  show ?thesis
  proof (cases "bucket_at (buckets s) (bucketIndex x (bucketWidth s)) (bucketIndex y (bucketHeight s))")
    case None
    from removeAllAt_no_bucket [OF inb None] assms show ?thesis by simp
  next
    case (Some b)
    obtain n' b' f' s1 where
      sw: "swap_remove (\<lambda>it. item_x it = x \<and> item_y it = y) Null 0 (length b) b False s
           = (n', b', f', s1)"
      using prod_cases4 by blast
    from inb have "0 \<le> x" "x < gridWidth s" "0 \<le> y" "y < gridHeight s" by simp_all
    from removeAllAt_unfold [OF this Some sw] assms show ?thesis by simp
  qed
qed

lemma removeAllAt_Return:
  assumes "removeAllAt x y s = Return () s'"
  obtains b n' b' f' s1 where
    "0 \<le> x" "x < gridWidth s" "0 \<le> y" "y < gridHeight s"
    "bucket_at (buckets s) (bucketIndex x (bucketWidth s)) (bucketIndex y (bucketHeight s)) = Some b"
    "swap_remove (\<lambda>it. item_x it = x \<and> item_y it = y) Null 0 (length b) b False s
           = (n', b', f', s1)"
    "s' = s1\<lparr>buckets := set_bucket (buckets s) (bucketIndex x (bucketWidth s))
                                   (bucketIndex y (bucketHeight s)) (take n' b')\<rparr>"
proof (cases "x < 0 \<or> x \<ge> gridWidth s \<or> y < 0 \<or> y \<ge> gridHeight s")
  case True
  from removeAllAt_out_of_bounds [OF True] assms show ?thesis by simp
next
  case inb: False
  then have xy: "0 \<le> x" "x < gridWidth s" "0 \<le> y" "y < gridHeight s" by simp_all
  show ?thesis
  proof (cases "bucket_at (buckets s) (bucketIndex x (bucketWidth s)) (bucketIndex y (bucketHeight s))")
    case None
    from removeAllAt_no_bucket [OF inb None] assms show ?thesis by simp
  next
    case (Some b)
    obtain n' b' f' s1 where
      sw: "swap_remove (\<lambda>it. item_x it = x \<and> item_y it = y) Null 0 (length b) b False s
           = (n', b', f', s1)"
      using prod_cases4 by blast
    from removeAllAt_unfold [OF xy Some sw] assms
    have "s' = s1\<lparr>buckets := set_bucket (buckets s) (bucketIndex x (bucketWidth s))
                                   (bucketIndex y (bucketHeight s)) (take n' b')\<rparr>"
      by simp
    from that [OF xy Some sw this] show ?thesis .
  qed
qed

lemma removeAllAt_size_inv:
  assumes "size_inv s" and "removeAllAt x y s = Return () s'"
  shows "size_inv s'"
proof -
  from assms(2) obtain b n' b' f' s1 where
    b: "bucket_at (buckets s) (bucketIndex x (bucketWidth s)) (bucketIndex y (bucketHeight s)) = Some b"
    and sw: "swap_remove (\<lambda>it. item_x it = x \<and> item_y it = y) Null 0 (length b) b False s
           = (n', b', f', s1)"
    and s': "s' = s1\<lparr>buckets := set_bucket (buckets s) (bucketIndex x (bucketWidth s))
                                   (bucketIndex y (bucketHeight s)) (take n' b')\<rparr>"
    by (rule removeAllAt_Return)
  from swap_remove_frame [OF sw] have fr: "n' \<le> length b" "length b' = length b"
    "grid_size s1 = grid_size s - int (length b - n')" by simp_all
  have "buckets s' = set_bucket (buckets s) (bucketIndex x (bucketWidth s))
                                   (bucketIndex y (bucketHeight s)) (take n' b')"
    by (simp add: s')
  from length_all_items_set_bucket [OF b this] fr
  have "int (length (all_items s')) = int (length (all_items s)) - int (length b) + int n'"
    by simp
  moreover have "grid_size s' = grid_size s - int (length b - n')" using fr by (simp add: s')
  ultimately show ?thesis using assms(1) fr(1) by (simp add: size_inv_def)
qed

lemma move_size_inv:
  assumes "size_inv s" and "move a b c d v s = Return () s'"
  shows "size_inv s'"
proof -
  from assms(2) obtain s1 where "removeAt a b v s = Return () s1" "insertAt c d v s1 = Return () s'"
    by (cases "removeAt a b v s") (simp_all add: move_def)
  with assms(1) show ?thesis using removeAt_size_inv insertAt_size_inv by blast
qed

lemma clear_item_park: "clear_item = park Undefined"
  by (intro ext) (simp add: clear_item_def park_def)

lemma concat_concat_emptied [simp]: "concat (concat (map (map (\<lambda>bucket. [])) bs)) = []"
proof (induction bs)
  case Nil
  then show ?case by simp
next
  case (Cons row bs)
  have "concat (map (\<lambda>bucket. []) row) = []" by (induction row) simp_all
  with Cons show ?case by simp
qed

lemma clear_size_inv: "size_inv s \<Longrightarrow> size_inv (clear s)"
  by (simp add: size_inv_def clear_def clear_item_park all_items_def)

lemma resize_loop_size:
  "resize_loop gw gh bw bh rest nb s = Return nb' s' \<Longrightarrow>
   grid_size s' - int (length (concat (concat nb')))
     = grid_size s - int (length (concat (concat nb))) - int (length rest)"
proof (induction rest arbitrary: nb s)
  case Nil
  then show ?case by simp
next
  case (Cons item rest)
  show ?case
  proof (cases "item_x (items s item) \<ge> gw \<or> item_y (items s item) \<ge> gh")
    case True
    from Cons.prems have "resize_loop gw gh bw bh rest nb
             (s\<lparr>destructorCalls :=
                  (if destructorCallback s
                   then destructorCalls s @
                          [(item_value (items s item), item_x (items s item), item_y (items s item))]
                   else destructorCalls s),
                items := (items s)(item := (items s item)\<lparr>item_value := Undefined\<rparr>),
                itemPool := FastPool_release item (itemPool s),
                grid_size := grid_size s - 1\<rparr>) = Return nb' s'"
      unfolding resize_loop.simps if_P [OF True] .
    from Cons.IH [OF this] show ?thesis by simp
  next
    case False
    let ?i = "bucketIndex (item_x (items s item)) bw" and ?j = "bucketIndex (item_y (items s item)) bh"
    from Cons.prems have step: "(case bucket_at nb ?i ?j of
                 None \<Rightarrow> Throw TypeError s
               | Some bucket \<Rightarrow>
                   resize_loop gw gh bw bh rest (set_bucket nb ?i ?j (bucket @ [item])) s)
            = Return nb' s'"
      unfolding resize_loop.simps if_not_P [OF False] Let_def .
    then obtain b where b: "bucket_at nb ?i ?j = Some b"
      and run: "resize_loop gw gh bw bh rest (set_bucket nb ?i ?j (b @ [item])) s = Return nb' s'"
      by (cases "bucket_at nb ?i ?j") simp_all
    from mset_set_bucket [OF b, of "b @ [item]"]
    have "size (mset (concat (concat (set_bucket nb ?i ?j (b @ [item])))) + mset b)
        = size (mset (concat (concat nb)) + mset (b @ [item]))" by simp
    then have "length (concat (concat (set_bucket nb ?i ?j (b @ [item]))))
        = length (concat (concat nb)) + 1" by simp
    with Cons.IH [OF run] show ?thesis by simp
  qed
qed

lemma make_buckets_Some:
  "make_buckets gw gh bw bh = Some nb \<Longrightarrow> \<exists>n m. nb = replicate n (replicate m [])"
proof -
  assume mk: "make_buckets gw gh bw bh = Some nb"
  show ?thesis
  proof (cases "bucketsIn gw bw")
    case None
    with mk show ?thesis by (simp add: make_buckets_def)
  next
    case (Some nx)
    show ?thesis
    proof (cases "nx = 0")
      case True
      with mk Some have "nb = replicate 0 (replicate 0 [])" by (simp add: make_buckets_def)
      then show ?thesis by blast
    next
      case False
      with mk Some show ?thesis
        by (cases "bucketsIn gh bh") (auto simp: make_buckets_def)
    qed
  qed
qed

lemma make_buckets_empty: "make_buckets gw gh bw bh = Some nb \<Longrightarrow> concat (concat nb) = []"
  by (drule make_buckets_Some) auto

lemma resize_to_Return:
  assumes "resize_to gw gh bw bh s = Return () s'"
  obtains nb nb' s1 where
    "make_buckets gw gh bw bh = Some nb"
    "resize_loop gw gh bw bh (all_items s) nb s = Return nb' s1"
    "s' = s1\<lparr>gridWidth := gw, gridHeight := gh, bucketWidth := bw, bucketHeight := bh,
             buckets := nb'\<rparr>"
proof (cases "make_buckets gw gh bw bh")
  case None
  with assms show ?thesis by (simp add: resize_to_def)
next
  case (Some nb)
  show ?thesis
  proof (cases "resize_loop gw gh bw bh (all_items s) nb s")
    case (Throw e s1)
    with Some assms show ?thesis by (simp add: resize_to_def)
  next
    case (Return nb' s1)
    with Some assms that show ?thesis by (simp add: resize_to_def)
  qed
qed

lemma resize_to_size_inv:
  assumes "size_inv s" and "resize_to gw gh bw bh s = Return () s'"
  shows "size_inv s'"
proof -
  from assms(2) obtain nb nb' s1 where
    mk: "make_buckets gw gh bw bh = Some nb"
    and loop: "resize_loop gw gh bw bh (all_items s) nb s = Return nb' s1"
    and s': "s' = s1\<lparr>gridWidth := gw, gridHeight := gh, bucketWidth := bw, bucketHeight := bh,
             buckets := nb'\<rparr>"
    by (rule resize_to_Return)
  from resize_loop_size [OF loop] make_buckets_empty [OF mk] assms(1)
  have "grid_size s1 = int (length (concat (concat nb')))" by (simp add: size_inv_def)
  then show ?thesis by (simp add: size_inv_def s' all_items_def)
qed

lemma resize_size_inv:
  "size_inv s \<Longrightarrow> resize gw' gh' bw' bh' s = Return () s' \<Longrightarrow> size_inv s'"
  unfolding resize_def by (rule resize_to_size_inv)

lemma run_operation_size_inv:
  assumes "size_inv s" and "run_operation operation s = Return () s'"
  shows "size_inv s'"
proof (cases operation)
  case (InsertAt x y v)
  with assms show ?thesis using insertAt_size_inv [of s x y v s'] by simp
next
  case (RemoveAt x y v)
  with assms show ?thesis using removeAt_size_inv [of s x y v s'] by simp
next
  case (RemoveAllAt x y)
  with assms show ?thesis using removeAllAt_size_inv [of s x y s'] by simp
next
  case (Move a b c d v)
  with assms show ?thesis using move_size_inv [of s a b c d v s'] by simp
next
  case (Resize gw gh bw bh)
  with assms show ?thesis using resize_size_inv [of s gw gh bw bh s'] by simp
next
  case Clear
  with assms show ?thesis using clear_size_inv [of s] by auto
qed

lemma run_size_inv: "size_inv s \<Longrightarrow> run ops s = Return () s' \<Longrightarrow> size_inv s'"
proof (induction ops arbitrary: s)
  case Nil
  then show ?case by simp
next
  case (Cons operation ops)
  from Cons.prems(2) obtain s1 where "run_operation operation s = Return () s1"
    and "run ops s1 = Return () s'"
    by (cases "run_operation operation s") simp_all
  with Cons.prems(1) Cons.IH run_operation_size_inv show ?case by blast
qed

lemma length_forEach: "length (forEach s) = sum_list (map length (concat (buckets s)))"
  by (simp add: forEach_def all_items_def length_concat)

text \<open>
  C1. From a grid as the constructor makes it, after any sequence of \<open>insertAt\<close>,
  \<open>removeAt\<close>, \<open>removeAllAt\<close>, \<open>move\<close>, \<open>resize\<close> and \<open>clear\<close> calls that all returned,
  \<open>size\<close> equals the number of records \<open>forEach\<close> visits, which is the sum of the lengths
  of the buckets.
\<close>

theorem size_counts_records:
  assumes "SpatialGrid2D_new gw gh bw bh d p0 it0 = Inr s0" and "run ops s0 = Return () s"
  shows "grid_size s = int (length (forEach s)) \<and>
         length (forEach s) = sum_list (map length (concat (buckets s)))"
proof -
  from SpatialGrid2D_new_Inr [OF assms(1)] have "size_inv s0"
    by (auto simp: size_inv_def all_items_def)
  from run_size_inv [OF this assms(2)] have "grid_size s = int (length (forEach s))"
    by (simp add: size_inv_def forEach_def)
  with length_forEach [of s] show ?thesis by simp
qed

lemma example_operations_run:
  "run example_operations example_grid = Return () (state_of (run example_operations example_grid))"
  "grid_size (state_of (run example_operations example_grid)) = 1"
  "forEach (state_of (run example_operations example_grid)) = [(Element 2, 2, 2)]"
proof -
  have "\<exists>s. run example_operations example_grid = Return () s \<and> grid_size s = 1 \<and>
      forEach s = [(Element 2, 2, 2)]"
    by (simp add: example_operations_def grid_eval removeAt_loop.simps removeAllAt_loop.simps
        eval_nat_numeral)
  then obtain s where "run example_operations example_grid = Return () s" "grid_size s = 1"
    "forEach s = [(Element 2, 2, 2)]" by blast
  then show
    "run example_operations example_grid = Return () (state_of (run example_operations example_grid))"
    "grid_size (state_of (run example_operations example_grid)) = 1"
    "forEach (state_of (run example_operations example_grid)) = [(Element 2, 2, 2)]"
    by simp_all
qed

theorem size_counts_records_witness:
  "SpatialGrid2D_new 9 7 3 4 True itemPool_init items_init = Inr example_grid \<and>
   run example_operations example_grid
     = Return () (state_of (run example_operations example_grid)) \<and>
   grid_size (state_of (run example_operations example_grid))
     = int (length (forEach (state_of (run example_operations example_grid)))) \<and>
   length (forEach (state_of (run example_operations example_grid)))
     = sum_list (map length (concat (buckets (state_of (run example_operations example_grid))))) \<and>
   forEach (state_of (run example_operations example_grid)) = [(Element 2, 2, 2)]"
  using size_counts_records [OF example_grid_new example_operations_run(1)]
    example_grid_new example_operations_run
  by simp

lemma FastPool_getOne_Throw: "FastPool_getOne p = Throw e p' \<Longrightarrow> e = RangeError"
proof -
  assume t: "FastPool_getOne p = Throw e p'"
  show ?thesis
  proof (cases "indexInPool p = 0")
    case False
    with t show ?thesis by (simp add: FastPool_getOne_def)
  next
    case True
    show ?thesis
    proof (cases "autoHydrateSize (config p)")
      case None
      with True t show ?thesis by (simp add: FastPool_getOne_def)
    next
      case (Some n)
      show ?thesis
      proof (cases "arr_add_length (pool p) n")
        case (Inl e')
        then have "e' = RangeError"
          by (simp add: arr_add_length_def Let_def split: if_splits)
        with Inl True Some t show ?thesis by (simp add: FastPool_getOne_def FastPool_hydrate_def)
      next
        case (Inr a)
        with True Some t show ?thesis by (simp add: FastPool_getOne_def FastPool_hydrate_def)
      qed
    qed
  qed
qed

lemma insertAt_out_of_bounds:
  "x < 0 \<or> x \<ge> gridWidth s \<or> y < 0 \<or> y \<ge> gridHeight s \<Longrightarrow>
   insertAt x y v s = Throw BoundsError s"
  by (simp add: insertAt_def)

lemma insertAt_Throw:
  assumes "insertAt x y v s = Throw e s'"
  shows "(e = BoundsError \<and> s' = s \<and> (x < 0 \<or> x \<ge> gridWidth s \<or> y < 0 \<or> y \<ge> gridHeight s)) \<or>
         e = RangeError \<or> e = TypeError"
proof (cases "x < 0 \<or> x \<ge> gridWidth s \<or> y < 0 \<or> y \<ge> gridHeight s")
  case True
  from insertAt_out_of_bounds [OF True, of v] assms True show ?thesis by simp
next
  case inb: False
  show ?thesis
  proof (cases "FastPool_getOne (itemPool s)")
    case (Throw e' p)
    from FastPool_getOne_Throw [OF this] Throw inb assms show ?thesis
      by (simp add: insertAt_def)
  next
    case (Return r p)
    show ?thesis
    proof (cases r)
      case None
      with Return inb assms show ?thesis by (simp add: insertAt_def)
    next
      case (Some item)
      with Return inb assms show ?thesis
        by (cases "bucket_at (buckets s) (bucketIndex x (bucketWidth s))
              (bucketIndex y (bucketHeight s))") (simp_all add: insertAt_def Let_def)
    qed
  qed
qed

lemma resize_loop_Throw: "resize_loop gw gh bw bh rest nb s = Throw e s' \<Longrightarrow> e = TypeError"
proof (induction rest arbitrary: nb s)
  case Nil
  then show ?case by simp
next
  case (Cons item rest)
  show ?case
  proof (cases "item_x (items s item) \<ge> gw \<or> item_y (items s item) \<ge> gh")
    case True
    from Cons.prems show ?thesis
      unfolding resize_loop.simps if_P [OF True] by (rule Cons.IH)
  next
    case False
    let ?i = "bucketIndex (item_x (items s item)) bw" and ?j = "bucketIndex (item_y (items s item)) bh"
    from Cons.prems have step: "(case bucket_at nb ?i ?j of
                 None \<Rightarrow> Throw TypeError s
               | Some bucket \<Rightarrow>
                   resize_loop gw gh bw bh rest (set_bucket nb ?i ?j (bucket @ [item])) s)
            = Throw e s'"
      unfolding resize_loop.simps if_not_P [OF False] Let_def .
    show ?thesis
    proof (cases "bucket_at nb ?i ?j")
      case None
      with step show ?thesis by simp
    next
      case (Some b)
      with step have "resize_loop gw gh bw bh rest (set_bucket nb ?i ?j (b @ [item])) s = Throw e s'"
        by simp
      then show ?thesis by (rule Cons.IH)
    qed
  qed
qed

lemma resize_to_Throw:
  assumes "resize_to gw gh bw bh s = Throw e s'"
  shows "e = NoReturn \<or> e = TypeError"
proof (cases "make_buckets gw gh bw bh")
  case None
  with assms show ?thesis by (simp add: resize_to_def)
next
  case (Some nb)
  show ?thesis
  proof (cases "resize_loop gw gh bw bh (all_items s) nb s")
    case (Throw e' s1)
    from resize_loop_Throw [OF this] Throw Some assms show ?thesis by (simp add: resize_to_def)
  next
    case (Return nb' s1)
    with Some assms show ?thesis by (simp add: resize_to_def)
  qed
qed

lemma removeAt_dims:
  assumes "removeAt x y v s = Return () s'"
  shows "gridWidth s' = gridWidth s \<and> gridHeight s' = gridHeight s \<and>
         bucketWidth s' = bucketWidth s \<and> bucketHeight s' = bucketHeight s \<and>
         destructorCallback s' = destructorCallback s \<and> destructorCalls s' = destructorCalls s"
proof -
  from assms obtain b n' b' s1 where
    sw: "swap_remove (\<lambda>it. item_x it = x \<and> item_y it = y \<and> item_value it = v) Undefined
           0 (length b) b False s = (n', b', True, s1)"
    and s': "s' = s1\<lparr>buckets := set_bucket (buckets s) (bucketIndex x (bucketWidth s))
                                   (bucketIndex y (bucketHeight s)) (take n' b')\<rparr>"
    by (rule removeAt_Return)
  from swap_remove_frame [OF sw] show ?thesis by (simp add: s')
qed

lemma move_Throw:
  assumes "move a b c d v s = Throw e s'" and "e = BoundsError \<or> e = NotFoundError"
  shows "(removeAt a b v s = Throw e s' \<and> s' = s) \<or>
         (e = BoundsError \<and> removeAt a b v s = Return () s' \<and>
          (c < 0 \<or> c \<ge> gridWidth s \<or> d < 0 \<or> d \<ge> gridHeight s))"
proof (cases "removeAt a b v s")
  case (Throw e' s1)
  with assms(1) have "e' = e" "s1 = s'" by (simp_all add: move_def)
  with Throw removeAt_Throw [of a b v s e s'] show ?thesis by simp
next
  case (Return u s1)
  with assms(1) have ins: "insertAt c d v s1 = Throw e s'" by (simp add: move_def)
  from insertAt_Throw [OF ins] assms(2)
  have "e = BoundsError" "s' = s1" "c < 0 \<or> c \<ge> gridWidth s1 \<or> d < 0 \<or> d \<ge> gridHeight s1"
    by auto
  moreover from Return have "removeAt a b v s = Return () s1" by simp
  moreover from removeAt_dims [OF this] have "gridWidth s1 = gridWidth s" "gridHeight s1 = gridHeight s"
    by simp_all
  ultimately show ?thesis by simp
qed

text \<open>
  C2, as amended. A BoundsError or NotFoundError thrown by \<open>insertAt\<close>, \<open>removeAt\<close> or
  \<open>removeAllAt\<close> leaves the whole state as it was before the call (\<open>get\<close> changes no state,
  \<open>clear\<close> does not throw and \<open>resize\<close> throws neither error). When \<open>move\<close> throws one of
  them, either its \<open>removeAt\<close> step threw it and the state is as before the call, or the
  removal went through, the destination is out of bounds, and the BoundsError of its
  \<open>insertAt\<close> step leaves the state in which the element has been removed.
\<close>

theorem errors_leave_state:
  "(insertAt x y v s = Throw e s' \<and> (e = BoundsError \<or> e = NotFoundError) \<longrightarrow> s' = s) \<and>
   (removeAt x y v s = Throw e s' \<and> (e = BoundsError \<or> e = NotFoundError) \<longrightarrow> s' = s) \<and>
   (removeAllAt x y s = Throw e s' \<and> (e = BoundsError \<or> e = NotFoundError) \<longrightarrow> s' = s) \<and>
   (resize gw gh bw bh s = Throw e s' \<longrightarrow> e \<noteq> BoundsError \<and> e \<noteq> NotFoundError) \<and>
   (move a b c d v s = Throw e s' \<and> (e = BoundsError \<or> e = NotFoundError) \<longrightarrow>
      (removeAt a b v s = Throw e s' \<and> s' = s) \<or>
      (e = BoundsError \<and> removeAt a b v s = Return () s' \<and>
       (c < 0 \<or> c \<ge> gridWidth s \<or> d < 0 \<or> d \<ge> gridHeight s)))"
proof (intro conjI impI)
  assume "insertAt x y v s = Throw e s' \<and> (e = BoundsError \<or> e = NotFoundError)"
  with insertAt_Throw [of x y v s e s'] show "s' = s" by auto
next
  assume "removeAt x y v s = Throw e s' \<and> (e = BoundsError \<or> e = NotFoundError)"
  with removeAt_Throw [of x y v s e s'] show "s' = s" by simp
next
  assume "removeAllAt x y s = Throw e s' \<and> (e = BoundsError \<or> e = NotFoundError)"
  with removeAllAt_Throw [of x y s e s'] show "s' = s" by simp
next
  assume "resize gw gh bw bh s = Throw e s'"
  then have r: "e = NoReturn \<or> e = TypeError" unfolding resize_def by (rule resize_to_Throw)
  then show "e \<noteq> BoundsError" by auto
  from r show "e \<noteq> NotFoundError" by auto
next
  assume "move a b c d v s = Throw e s' \<and> (e = BoundsError \<or> e = NotFoundError)"
  then show "(removeAt a b v s = Throw e s' \<and> s' = s) \<or>
      (e = BoundsError \<and> removeAt a b v s = Return () s' \<and>
       (c < 0 \<or> c \<ge> gridWidth s \<or> d < 0 \<or> d \<ge> gridHeight s))"
    using move_Throw [of a b c d v s e s'] by blast
qed

lemma example_single_fields:
  "gridWidth example_single = 9" "gridHeight example_single = 7"
  "bucketWidth example_single = 3" "bucketHeight example_single = 4"
  "grid_size example_single = 1"
  "buckets example_single = [[[1033], []], [[], []], [[], []]]"
  "items example_single 1033 = \<lparr>item_x = 0, item_y = 0, item_value = Element 5\<rparr>"
  "indexInPool (itemPool example_single) = 1033"
  by (simp_all add: example_single_def grid_eval)

lemma example_single_errors:
  "insertAt 9 0 (Element 7) example_single = Throw BoundsError example_single"
  "removeAt 0 0 (Element 7) example_single = Throw NotFoundError example_single"
  "removeAt 0 7 (Element 5) example_single = Throw BoundsError example_single"
  "removeAllAt (-1) 0 example_single = Throw BoundsError example_single"
  "move 0 0 1 1 (Element 7) example_single = Throw NotFoundError example_single"
  by (simp_all add: insertAt_def removeAt_def removeAllAt_def move_def example_single_fields
      removeAt_loop.simps bucket_at_def nth_opt_def bucketIndex_def toInt32_def Let_def
      set_bucket_def)

lemma example_single_move_out:
  "thrown (move 0 0 (-1) 0 (Element 5) example_single) = Some BoundsError"
  "get 0 0 None example_single = Inr [Element 5]"
  "get 0 0 None (state_of (move 0 0 (-1) 0 (Element 5) example_single)) = Inr []"
  "grid_size (state_of (move 0 0 (-1) 0 (Element 5) example_single)) = 0"
  by (simp_all add: insertAt_def removeAt_def move_def get_def example_single_fields
      removeAt_loop.simps bucket_at_def nth_opt_def bucketIndex_def toInt32_def Let_def
      set_bucket_def)

theorem errors_leave_state_witness:
  "insertAt 9 0 (Element 7) example_single = Throw BoundsError example_single \<and>
   removeAt 0 0 (Element 7) example_single = Throw NotFoundError example_single \<and>
   removeAllAt (-1) 0 example_single = Throw BoundsError example_single \<and>
   move 0 0 1 1 (Element 7) example_single = Throw NotFoundError example_single \<and>
   thrown (move 0 0 (-1) 0 (Element 5) example_single) = Some BoundsError \<and>
   removeAt 0 0 (Element 5) example_single
     = Return () (state_of (move 0 0 (-1) 0 (Element 5) example_single))"
proof -
  let ?r = "move 0 0 (-1) 0 (Element 5) example_single"
  have "?r = Throw BoundsError (state_of ?r)"
    using example_single_move_out(1) by (cases ?r) simp_all
  with errors_leave_state [of 0 0 "Element 5" example_single BoundsError "state_of ?r"
      None None None None 0 0 "-1" 0]
  have "(removeAt 0 0 (Element 5) example_single = Throw BoundsError (state_of ?r) \<and>
          state_of ?r = example_single) \<or>
        removeAt 0 0 (Element 5) example_single = Return () (state_of ?r)"
    by blast
  moreover have "grid_size (state_of ?r) \<noteq> grid_size example_single"
    by (simp add: example_single_move_out example_single_fields)
  ultimately have "removeAt 0 0 (Element 5) example_single = Return () (state_of ?r)" by auto
  with example_single_errors example_single_move_out show ?thesis by simp
qed

text \<open>
  C2 as stated fails for \<open>move\<close>: with the element 5 filed once at (0, 0), \<open>move(0, 0, -1, 0, 5)\<close>
  throws a BoundsError, after which \<open>get(0, 0)\<close> is empty and \<open>size\<close> is 0 instead of 1.
\<close>

theorem errors_leave_state_counterexample:
  "thrown (move 0 0 (-1) 0 (Element 5) example_single) = Some BoundsError \<and>
   get 0 0 None example_single = Inr [Element 5] \<and>
   get 0 0 None (state_of (move 0 0 (-1) 0 (Element 5) example_single)) = Inr [] \<and>
   grid_size example_single = 1 \<and>
   grid_size (state_of (move 0 0 (-1) 0 (Element 5) example_single)) = 0"
  by (simp add: example_single_move_out example_single_fields)

lemma records_map: "records s bucket = map (record_of s) bucket"
  by (simp add: records_def)

lemma record_of_hit:
  "(record_of s a = (v, x, y)) =
     (item_x (items s a) = x \<and> item_y (items s a) = y \<and> item_value (items s a) = v)"
  by (auto simp: record_of_def)

lemma removeAt_spec:
  assumes "0 \<le> x" "x < gridWidth s" "0 \<le> y" "y < gridHeight s"
    and "bucket_at (buckets s) (bucketIndex x (bucketWidth s)) (bucketIndex y (bucketHeight s)) = Some b"
    and "distinct b"
  shows "\<exists>rs b'. mset rs = filter_mset (\<lambda>a. record_of s a = (v, x, y)) (mset b) \<and>
           mset b' = filter_mset (\<lambda>a. record_of s a \<noteq> (v, x, y)) (mset b) \<and>
           removeAt x y v s =
             (if rs = [] then Throw NotFoundError s
              else Return () ((fold (park Undefined) rs s)
                     \<lparr>buckets := set_bucket (buckets s) (bucketIndex x (bucketWidth s))
                                   (bucketIndex y (bucketHeight s)) b'\<rparr>))"
proof -
  let ?m = "\<lambda>it. item_x it = x \<and> item_y it = y \<and> item_value it = v"
  obtain n' b' f' s1 where sw: "swap_remove ?m Undefined 0 (length b) b False s = (n', b', f', s1)"
    using prod_cases4 by blast
  from swap_remove_spec [OF sw] assms(6) obtain rs where
    rs: "s1 = fold (park Undefined) rs s"
      "mset rs = filter_mset (\<lambda>a. ?m (items s a)) (mset b)"
      "mset (take n' b') = filter_mset (\<lambda>a. \<not> ?m (items s a)) (mset b)"
      "f' = (rs \<noteq> [])"
    by auto
  have "mset rs = filter_mset (\<lambda>a. record_of s a = (v, x, y)) (mset b)"
    using rs(2) by (simp add: record_of_hit)
  moreover have "mset (take n' b') = filter_mset (\<lambda>a. record_of s a \<noteq> (v, x, y)) (mset b)"
    using rs(3) by (simp add: record_of_hit)
  moreover have "removeAt x y v s =
             (if rs = [] then Throw NotFoundError s
              else Return () ((fold (park Undefined) rs s)
                     \<lparr>buckets := set_bucket (buckets s) (bucketIndex x (bucketWidth s))
                                   (bucketIndex y (bucketHeight s)) (take n' b')\<rparr>))"
    using removeAt_unfold [OF assms(1-5) sw] rs(1,4) by simp
  ultimately show ?thesis by blast
qed

lemma count_image_filter:
  "count (image_mset f M) t = size (filter_mset (\<lambda>a. f a = t) M)"
  by (induction M) simp_all

lemma image_hits:
  "image_mset f (filter_mset (\<lambda>a. f a = t) M) = replicate_mset (size (filter_mset (\<lambda>a. f a = t) M)) t"
  by (induction M) simp_all

lemma filter_split: "filter_mset P M + filter_mset (\<lambda>a. \<not> P a) M = M"
  by (induction M) simp_all

text \<open>A state in which the items \<open>rs\<close> have been parked and the buckets replaced by buckets
  holding the other items.\<close>

lemma parked_pool_inv:
  assumes "pool_inv s" and "mset (all_items s') + mset rs = mset (all_items s)"
    and "itemPool s' = itemPool (fold (park pk) rs s)"
  shows "pool_inv s' \<and> set rs \<inter> set (all_items s') = {} \<and> distinct rs \<and>
         set (all_items s') \<subseteq> set (all_items s)"
proof -
  from assms(1) have ok: "pool_ok (itemPool s) (set (all_items s))" and d: "distinct (all_items s)"
    by (simp_all add: pool_inv_def)
  from assms(2) have m: "mset (all_items s' @ rs) = mset (all_items s)" by simp
  then have "distinct (all_items s' @ rs) = distinct (all_items s)" by (rule mset_eq_imp_distinct_iff)
  with d have d': "distinct (all_items s')" "distinct rs" "set (all_items s') \<inter> set rs = {}"
    by simp_all
  from m have "set (all_items s' @ rs) = set (all_items s)" by (rule mset_eq_setD)
  then have set: "set (all_items s) = set (all_items s') \<union> set rs" by simp
  then have "set rs \<subseteq> set (all_items s)" by blast
  from fold_park_pool_ok [OF ok d'(2) this, of pk]
  have "pool_ok (itemPool s') (set (all_items s) - set rs)" by (simp add: assms(3))
  moreover have "set (all_items s) - set rs = set (all_items s')" using set d'(3) by blast
  ultimately show ?thesis using d' set by (auto simp: pool_inv_def)
qed

lemma parked_items_in_bounds:
  assumes "items_in_bounds s" and "set (all_items s') \<subseteq> set (all_items s)"
    and "items s' = items (fold (park pk) rs s)"
    and "gridWidth s' = gridWidth s" "gridHeight s' = gridHeight s"
  shows "items_in_bounds s'"
  using assms unfolding items_in_bounds_def by (auto simp: fold_park_items)

lemma parked_size_inv:
  assumes "size_inv s" and "mset (all_items s') + mset rs = mset (all_items s)"
    and "grid_size s' = grid_size (fold (park pk) rs s)"
  shows "size_inv s'"
proof -
  from assms(2) have "size (mset (all_items s') + mset rs) = size (mset (all_items s))" by simp
  then have "length (all_items s') + length rs = length (all_items s)" by simp
  with assms(1,3) show ?thesis by (simp add: size_inv_def)
qed

lemma parked_grid_inv:
  assumes "grid_inv s" and "mset (all_items s') + mset rs = mset (all_items s)"
    and "itemPool s' = itemPool (fold (park pk) rs s)"
    and "items s' = items (fold (park pk) rs s)"
    and "grid_size s' = grid_size (fold (park pk) rs s)"
    and "gridWidth s' = gridWidth s" "gridHeight s' = gridHeight s"
  shows "grid_inv s'"
proof -
  from assms(1) have "pool_inv s" "items_in_bounds s" "size_inv s" by (simp_all add: grid_inv_def)
  from parked_pool_inv [OF this(1) assms(2,3)] parked_items_in_bounds [OF this(2) _ assms(4,6,7)]
    parked_size_inv [OF this(3) assms(2,5)]
  show ?thesis by (simp add: grid_inv_def)
qed

lemma bucket_at_distinct:
  assumes "bucket_at bs i j = Some b" and "distinct (concat (concat bs))"
  shows "distinct b"
proof -
  from assms(1) have i: "nat i < length bs" and j: "nat j < length (bs ! nat i)"
    and b: "b = bs ! nat i ! nat j"
    by (auto simp: bucket_at_Some_iff)
  have cc: "concat (concat xs) = concat (map concat xs)" for xs :: "addr list list list"
    by (induction xs) simp_all
  have "bs ! nat i \<in> set bs" using i by simp
  then have "concat (bs ! nat i) \<in> set (map concat bs)" by simp
  moreover have "distinct (concat (map concat bs))"
    using assms(2) by (simp add: cc)
  ultimately have "distinct (concat (bs ! nat i))"
    using distinct_concat_iff by blast
  moreover have "b \<in> set (bs ! nat i)" unfolding b using j by simp
  ultimately show ?thesis using distinct_concat_iff by blast
qed

lemma removeAt_effect:
  assumes "pool_inv s" and "removeAt x y v s = Return () s'"
  obtains b rs b' where
    "0 \<le> x" "x < gridWidth s" "0 \<le> y" "y < gridHeight s"
    "bucket_at (buckets s) (bucketIndex x (bucketWidth s)) (bucketIndex y (bucketHeight s)) = Some b"
    "mset rs = filter_mset (\<lambda>a. record_of s a = (v, x, y)) (mset b)"
    "mset b' = filter_mset (\<lambda>a. record_of s a \<noteq> (v, x, y)) (mset b)"
    "rs \<noteq> []"
    "s' = (fold (park Undefined) rs s)
            \<lparr>buckets := set_bucket (buckets s) (bucketIndex x (bucketWidth s))
                          (bucketIndex y (bucketHeight s)) b'\<rparr>"
    "mset (all_items s') + mset rs = mset (all_items s)"
proof -
  from assms(2) obtain b where inb: "0 \<le> x" "x < gridWidth s" "0 \<le> y" "y < gridHeight s"
    and b: "bucket_at (buckets s) (bucketIndex x (bucketWidth s)) (bucketIndex y (bucketHeight s)) = Some b"
    by (rule removeAt_Return)
  from assms(1) have "distinct (all_items s)" by (simp add: pool_inv_def)
  with b have "distinct b" unfolding all_items_def by (rule bucket_at_distinct)
  from removeAt_spec [OF inb b this, of v] obtain rs b' where
    rs: "mset rs = filter_mset (\<lambda>a. record_of s a = (v, x, y)) (mset b)"
    and b': "mset b' = filter_mset (\<lambda>a. record_of s a \<noteq> (v, x, y)) (mset b)"
    and r: "removeAt x y v s =
             (if rs = [] then Throw NotFoundError s
              else Return () ((fold (park Undefined) rs s)
                     \<lparr>buckets := set_bucket (buckets s) (bucketIndex x (bucketWidth s))
                                   (bucketIndex y (bucketHeight s)) b'\<rparr>))"
    by blast
  from r assms(2) have ne: "rs \<noteq> []" by (cases "rs = []") simp_all
  with r assms(2) have s': "s' = (fold (park Undefined) rs s)
            \<lparr>buckets := set_bucket (buckets s) (bucketIndex x (bucketWidth s))
                          (bucketIndex y (bucketHeight s)) b'\<rparr>" by simp
  have "mset b' + mset rs = mset b"
    using filter_split [of "\<lambda>a. record_of s a = (v, x, y)" "mset b"] rs b' by (simp add: ac_simps)
  moreover from mset_set_bucket [OF b, of b']
  have "mset (all_items s') + mset b = mset (all_items s) + mset b'"
    by (simp add: s' all_items_def)
  ultimately have "mset (all_items s') + (mset b' + mset rs) = mset (all_items s) + mset b'"
    by simp
  then have "mset (all_items s') + mset rs = mset (all_items s)"
    by (simp add: ac_simps)
  from that [OF inb b rs b' ne s' this] show thesis .
qed

lemma removeAt_grid_inv:
  assumes "grid_inv s" and "removeAt x y v s = Return () s'"
  shows "grid_inv s'"
proof -
  from assms(1) have "pool_inv s" by (simp add: grid_inv_def)
  from this assms(2) obtain rs b' where
    s': "s' = (fold (park Undefined) rs s)
            \<lparr>buckets := set_bucket (buckets s) (bucketIndex x (bucketWidth s))
                          (bucketIndex y (bucketHeight s)) b'\<rparr>"
    and m: "mset (all_items s') + mset rs = mset (all_items s)"
    by (rule removeAt_effect)
  show ?thesis
    by (rule parked_grid_inv [OF assms(1) m, of Undefined]) (simp_all add: s')
qed

lemma forEach_map: "forEach s = map (record_of s) (all_items s)"
  by (simp add: forEach_def record_of_def)

lemma record_of_parked:
  "a \<notin> set rs \<Longrightarrow> record_of ((fold (park pk) rs s)\<lparr>buckets := B\<rparr>) a = record_of s a"
  by (simp add: record_of_def fold_park_items)

lemma get_records:
  assumes "0 \<le> x" "x < gridWidth s" "0 \<le> y" "y < gridHeight s"
    and "bucket_at (buckets s) (bucketIndex x (bucketWidth s)) (bucketIndex y (bucketHeight s)) = Some b"
  shows "get x y None s = Inr (map fst (filter (\<lambda>r. snd r = (x, y)) (records s b)))"
  using assms
  by (simp add: get_def not_le not_less records_def record_of_def filter_map comp_def)

lemma removeAt_result:
  assumes "pool_inv s" and "removeAt x y v s = Return () s'"
  obtains b b' where
    "bucket_at (buckets s) (bucketIndex x (bucketWidth s)) (bucketIndex y (bucketHeight s)) = Some b"
    "bucket_at (buckets s') (bucketIndex x (bucketWidth s')) (bucketIndex y (bucketHeight s')) = Some b'"
    "(v, x, y) \<in> set (records s b)"
    "mset (records s' b') = filter_mset (\<lambda>r. r \<noteq> (v, x, y)) (mset (records s b))"
    "grid_size s' = grid_size s - int (count (mset (records s b)) (v, x, y))"
    "mset (forEach s') + replicate_mset (count (mset (records s b)) (v, x, y)) (v, x, y)
       = mset (forEach s)"
    "\<exists>vs. get x y None s' = Inr vs \<and> v \<notin> set vs"
    "\<forall>a\<in>set (all_items s'). record_of s' a = record_of s a"
proof -
  let ?t = "(v, x, y)"
  from assms obtain b rs b' where
    inb: "0 \<le> x" "x < gridWidth s" "0 \<le> y" "y < gridHeight s"
    and b: "bucket_at (buckets s) (bucketIndex x (bucketWidth s)) (bucketIndex y (bucketHeight s)) = Some b"
    and rs: "mset rs = filter_mset (\<lambda>a. record_of s a = ?t) (mset b)"
    and b': "mset b' = filter_mset (\<lambda>a. record_of s a \<noteq> ?t) (mset b)"
    and ne: "rs \<noteq> []"
    and s': "s' = (fold (park Undefined) rs s)
            \<lparr>buckets := set_bucket (buckets s) (bucketIndex x (bucketWidth s))
                          (bucketIndex y (bucketHeight s)) b'\<rparr>"
    and m: "mset (all_items s') + mset rs = mset (all_items s)"
    by (rule removeAt_effect)
  have dims: "gridWidth s' = gridWidth s" "gridHeight s' = gridHeight s"
    "bucketWidth s' = bucketWidth s" "bucketHeight s' = bucketHeight s"
    by (simp_all add: s')
  have bk: "bucket_at (buckets s') (bucketIndex x (bucketWidth s')) (bucketIndex y (bucketHeight s'))
      = Some b'"
    using bucket_at_set_bucket [OF b, of b'] by (simp add: s')
  have k: "int (length rs) = int (count (mset (records s b)) ?t)"
  proof -
    have "length rs = size (mset rs)" by simp
    also have "\<dots> = count (image_mset (record_of s) (mset b)) ?t"
      unfolding rs by (rule count_image_filter [symmetric])
    finally show ?thesis by (simp add: records_def)
  qed
  from ne obtain r where "r \<in># mset rs" by (cases rs) auto
  then have "r \<in># mset b" "record_of s r = ?t" unfolding rs by simp_all
  then have inrec: "?t \<in> set (records s b)" by (force simp: records_def image_iff)
  have rs_hit: "record_of s a = ?t" if "a \<in> set rs" for a
  proof -
    from that have "a \<in># mset rs" by simp
    then show ?thesis unfolding rs by simp
  qed
  have b'_miss: "record_of s a \<noteq> ?t \<and> a \<in> set b" if "a \<in> set b'" for a
  proof -
    from that have "a \<in># mset b'" by simp
    then show ?thesis unfolding b' by simp
  qed
  have keep: "record_of s' a = record_of s a" if "a \<in> set b'" for a
  proof -
    from b'_miss [OF that] rs_hit have "a \<notin> set rs" by blast
    then show ?thesis unfolding s' by (rule record_of_parked)
  qed
  have rec': "records s' b' = records s b'"
    unfolding records_def using keep by simp
  have "mset (records s' b') = image_mset (record_of s) (mset b')"
    unfolding rec' by (simp add: records_def)
  also have "\<dots> = filter_mset (\<lambda>r. r \<noteq> ?t) (image_mset (record_of s) (mset b))"
    unfolding b' by (rule image_mset_filter_mset_swap)
  finally have recs: "mset (records s' b') = filter_mset (\<lambda>r. r \<noteq> ?t) (mset (records s b))"
    by (simp add: records_def)
  have size: "grid_size s' = grid_size s - int (count (mset (records s b)) ?t)"
    using k by (simp add: s')
  from parked_pool_inv [OF assms(1) m, of Undefined]
  have disj: "set rs \<inter> set (all_items s') = {}" by (simp add: s')
  have all_keep: "\<forall>a\<in>set (all_items s'). record_of s' a = record_of s a"
  proof
    fix a assume "a \<in> set (all_items s')"
    with disj have "a \<notin> set rs" by blast
    then show "record_of s' a = record_of s a" unfolding s' by (rule record_of_parked)
  qed
  then have "map (record_of s') (all_items s') = map (record_of s) (all_items s')"
    by simp
  then have "mset (forEach s') = image_mset (record_of s) (mset (all_items s'))"
    unfolding forEach_map by (simp only: mset_map [symmetric])
  moreover have "image_mset (record_of s) (mset rs)
      = replicate_mset (count (mset (records s b)) ?t) ?t"
  proof -
    have "image_mset (record_of s) (mset rs)
        = replicate_mset (size (filter_mset (\<lambda>a. record_of s a = ?t) (mset b))) ?t"
      unfolding rs by (rule image_hits)
    then show ?thesis using count_image_filter [of "record_of s" "mset b" ?t]
      by (simp add: records_def)
  qed
  moreover have "image_mset (record_of s) (mset (all_items s') + mset rs) = mset (forEach s)"
    unfolding m by (simp add: forEach_map)
  ultimately have fe: "mset (forEach s') + replicate_mset (count (mset (records s b)) ?t) ?t
       = mset (forEach s)" by simp
  have "get x y None s' = Inr (map fst (filter (\<lambda>r. snd r = (x, y)) (records s' b')))"
    using inb bk by (intro get_records) (simp_all add: dims)
  moreover have "v \<notin> set (map fst (filter (\<lambda>r. snd r = (x, y)) (records s' b')))"
  proof
    assume "v \<in> set (map fst (filter (\<lambda>r. snd r = (x, y)) (records s' b')))"
    then have "?t \<in> set (records s' b')" by force
    then have "?t \<in># mset (records s' b')" by simp
    then show False unfolding recs by simp
  qed
  ultimately have "\<exists>vs. get x y None s' = Inr vs \<and> v \<notin> set vs" by blast
  from that [OF b bk inrec recs size fe this all_keep] show thesis .
qed




lemma example_single_inv: "grid_inv example_single" "dims_wf example_single"
proof -
  from example_grid_inv have "pool_inv example_grid" by (simp add: grid_inv_def)
  from insertAt_returns [OF this example_grid_dims_wf, of 0 0 "Element 5"]
  obtain s' where r: "insertAt 0 0 (Element 5) example_grid = Return () s'"
    by (auto simp: example_grid_fields)
  then have "s' = example_single" by (simp add: example_single_def)
  with r insertAt_grid_inv [OF example_grid_inv r] insertAt_dims_wf [OF example_grid_dims_wf r]
  show "grid_inv example_single" "dims_wf example_single" by simp_all
qed


lemma example_twice_fields:
  "gridWidth example_twice = 9" "gridHeight example_twice = 7"
  "bucketWidth example_twice = 3" "bucketHeight example_twice = 4"
  "grid_size example_twice = 2"
  "buckets example_twice = [[[1033, 1032], []], [[], []], [[], []]]"
  "items example_twice 1033 = \<lparr>item_x = 0, item_y = 0, item_value = Element 5\<rparr>"
  "items example_twice 1032 = \<lparr>item_x = 0, item_y = 0, item_value = Element 5\<rparr>"
  by (simp_all add: example_twice_def example_single_def grid_eval)

lemma example_twice_bucket:
  "bucket_at (buckets example_twice) (bucketIndex 0 (bucketWidth example_twice))
     (bucketIndex 0 (bucketHeight example_twice)) = Some [1033, 1032]"
  "records example_twice [1033, 1032] = [(Element 5, 0, 0), (Element 5, 0, 0)]"
  "forEach example_twice = [(Element 5, 0, 0), (Element 5, 0, 0)]"
  by (simp_all add: example_twice_fields bucket_at_def nth_opt_def bucketIndex_def toInt32_def
      records_def record_of_def forEach_def all_items_def)


lemma length_set_bucket_row:
  "k < length bs \<Longrightarrow> length (set_bucket bs i j b ! k) = length (bs ! k)"
  by (cases "k = nat i") (simp_all add: set_bucket_def)

lemma bucket_at_set_bucket_other:
  assumes "bucket_at bs i j = Some b" and "i' \<noteq> i \<or> j' \<noteq> j"
  shows "bucket_at (set_bucket bs i j b') i' j' = bucket_at bs i' j'"
proof -
  from assms(1) have i: "0 \<le> i" "i < int (length bs)" and j: "0 \<le> j"
    by (simp_all add: bucket_at_Some_iff)
  show ?thesis
  proof (cases "0 \<le> i' \<and> i' < int (length bs)")
    case False
    then have "nth_opt (set_bucket bs i j b') i' = None" "nth_opt bs i' = None"
      by (auto simp: nth_opt_def)
    then show ?thesis by (simp add: bucket_at_def)
  next
    case True
    show ?thesis
    proof (cases "i' = i")
      case False
      with True i have "nat i' \<noteq> nat i" by (auto simp: nat_eq_iff)
      with True show ?thesis by (auto simp: bucket_at_def nth_opt_def set_bucket_def)
    next
      case same: True
      with assms(2) have ne: "j' \<noteq> j" by simp
      show ?thesis
      proof (cases "0 \<le> j' \<and> j' < int (length (bs ! nat i))")
        case False
        with True same i show ?thesis by (auto simp: bucket_at_def nth_opt_def set_bucket_def)
      next
        case inner: True
        with ne j have "nat j' \<noteq> nat j" by (auto simp: nat_eq_iff)
        with True same i inner show ?thesis
          by (auto simp: bucket_at_def nth_opt_def set_bucket_def)
      qed
    qed
  qed
qed

lemma get_unfold:
  "get x y None s =
     (if x < 0 \<or> x \<ge> gridWidth s \<or> y < 0 \<or> y \<ge> gridHeight s then Inl BoundsError
      else (case bucket_at (buckets s) (bucketIndex x (bucketWidth s)) (bucketIndex y (bucketHeight s)) of
              None \<Rightarrow> Inl TypeError
            | Some bucket \<Rightarrow> Inr (map fst (filter (\<lambda>r. snd r = (x, y)) (records s bucket)))))"
  by (simp add: get_def records_def record_of_def filter_map comp_def split: option.splits)

lemma removeAt_buckets:
  assumes "pool_inv s" and "removeAt x y v s = Return () s'"
    and "bucket_at (buckets s) i j = Some bb"
  shows "\<exists>bb'. bucket_at (buckets s') i j = Some bb' \<and>
           mset (records s' bb') =
             (if i = bucketIndex x (bucketWidth s) \<and> j = bucketIndex y (bucketHeight s)
              then filter_mset (\<lambda>r. r \<noteq> (v, x, y)) (mset (records s bb))
              else mset (records s bb))"
proof -
  let ?i = "bucketIndex x (bucketWidth s)" and ?j = "bucketIndex y (bucketHeight s)"
  from removeAt_dims [OF assms(2)] have dims: "bucketWidth s' = bucketWidth s"
    "bucketHeight s' = bucketHeight s" by simp_all
  from assms(1,2) obtain b b' where
    b: "bucket_at (buckets s) ?i ?j = Some b"
    and b': "bucket_at (buckets s') (bucketIndex x (bucketWidth s')) (bucketIndex y (bucketHeight s')) = Some b'"
    and recs: "mset (records s' b') = filter_mset (\<lambda>r. r \<noteq> (v, x, y)) (mset (records s b))"
    and keep: "\<forall>a\<in>set (all_items s'). record_of s' a = record_of s a"
    by (rule removeAt_result)
  show ?thesis
  proof (cases "i = ?i \<and> j = ?j")
    case True
    with b assms(3) have "bb = b" by simp
    with True b' recs show ?thesis by (simp add: dims)
  next
    case False
    from assms(1,2) obtain rs b2 where
      "s' = (fold (park Undefined) rs s)\<lparr>buckets := set_bucket (buckets s) ?i ?j b2\<rparr>"
      by (rule removeAt_effect)
    then have "buckets s' = set_bucket (buckets s) ?i ?j b2" by simp
    with bucket_at_set_bucket_other [OF b, of i j b2] False assms(3)
    have at: "bucket_at (buckets s') i j = Some bb" by auto
    then have "set bb \<subseteq> set (all_items s')" unfolding all_items_def by (rule bucket_at_subset)
    with keep have "map (record_of s') bb = map (record_of s) bb" by auto
    then have "records s' bb = records s bb" by (simp add: records_def)
    with at False show ?thesis by auto
  qed
qed

lemma insertAt_buckets:
  assumes "pool_inv s" and "insertAt x y v s = Return () s'"
    and "bucket_at (buckets s) i j = Some bb"
  shows "\<exists>bb'. bucket_at (buckets s') i j = Some bb' \<and>
           mset (records s' bb') =
             mset (records s bb) +
             (if i = bucketIndex x (bucketWidth s) \<and> j = bucketIndex y (bucketHeight s)
              then {#(v, x, y)#} else {#})"
proof -
  let ?i = "bucketIndex x (bucketWidth s)" and ?j = "bucketIndex y (bucketHeight s)"
  from assms(2) obtain a p b where
    g: "FastPool_getOne (itemPool s) = Return (Some a) p"
    and b: "bucket_at (buckets s) ?i ?j = Some b"
    and s': "s' = s\<lparr>itemPool := p,
            items := (items s)(a := \<lparr>item_x = x, item_y = y, item_value = v\<rparr>),
            buckets := set_bucket (buckets s) ?i ?j (b @ [a]),
            grid_size := grid_size s + 1\<rparr>"
    by (rule insertAt_Return)
  from assms(1) have "pool_ok (itemPool s) (set (all_items s))" by (simp add: pool_inv_def)
  from FastPool_getOne_pool_ok [OF this] g have fresh: "a \<notin> set (all_items s)" by auto
  from assms(3) have "set bb \<subseteq> set (all_items s)"
    unfolding all_items_def by (rule bucket_at_subset)
  with fresh have "a \<notin> set bb" by blast
  then have "map (record_of s') bb = map (record_of s) bb"
    by (auto simp: s' record_of_def)
  then have same: "records s' bb = records s bb" by (simp add: records_def)
  have new: "record_of s' a = (v, x, y)" by (simp add: s' record_of_def)
  show ?thesis
  proof (cases "i = ?i \<and> j = ?j")
    case True
    with b assms(3) have "bb = b" by simp
    moreover from bucket_at_set_bucket [OF b, of "b @ [a]"]
    have "bucket_at (buckets s') ?i ?j = Some (b @ [a])" by (simp add: s')
    moreover have "records s' (bb @ [a]) = records s' bb @ [(v, x, y)]"
      using new by (simp add: records_def)
    ultimately show ?thesis using True same by simp
  next
    case False
    have "buckets s' = set_bucket (buckets s) ?i ?j (b @ [a])" by (simp add: s')
    with bucket_at_set_bucket_other [OF b, of i j "b @ [a]"] False assms(3)
    have "bucket_at (buckets s') i j = Some bb" by auto
    with same False show ?thesis by auto
  qed
qed

lemma bucket_at_set_bucket_None:
  "bucket_at bs i' j' = None \<Longrightarrow> bucket_at (set_bucket bs i j b) i' j' = None"
  by (auto simp: bucket_at_def nth_opt_def length_set_bucket_row
      split: option.splits if_splits)

lemma removeAt_buckets_None:
  assumes "pool_inv s" and "removeAt x y v s = Return () s'" and "bucket_at (buckets s) i j = None"
  shows "bucket_at (buckets s') i j = None"
proof -
  from assms(1,2) obtain rs b2 where
    "s' = (fold (park Undefined) rs s)
       \<lparr>buckets := set_bucket (buckets s) (bucketIndex x (bucketWidth s))
                     (bucketIndex y (bucketHeight s)) b2\<rparr>"
    by (rule removeAt_effect)
  then have "buckets s' = set_bucket (buckets s) (bucketIndex x (bucketWidth s))
                     (bucketIndex y (bucketHeight s)) b2" by simp
  with assms(3) show ?thesis by (simp add: bucket_at_set_bucket_None)
qed

lemma insertAt_buckets_None:
  assumes "insertAt x y v s = Return () s'" and "bucket_at (buckets s) i j = None"
  shows "bucket_at (buckets s') i j = None"
proof -
  from assms(1) obtain a p b where
    "s' = s\<lparr>itemPool := p,
            items := (items s)(a := \<lparr>item_x = x, item_y = y, item_value = v\<rparr>),
            buckets := set_bucket (buckets s) (bucketIndex x (bucketWidth s))
                         (bucketIndex y (bucketHeight s)) (b @ [a]),
            grid_size := grid_size s + 1\<rparr>"
    by (rule insertAt_Return)
  then have "buckets s' = set_bucket (buckets s) (bucketIndex x (bucketWidth s))
                         (bucketIndex y (bucketHeight s)) (b @ [a])" by simp
  with assms(2) show ?thesis by (simp add: bucket_at_set_bucket_None)
qed

lemma insertAt_dims:
  assumes "insertAt x y v s = Return () s'"
  shows "gridWidth s' = gridWidth s \<and> gridHeight s' = gridHeight s \<and>
         bucketWidth s' = bucketWidth s \<and> bucketHeight s' = bucketHeight s \<and>
         destructorCallback s' = destructorCallback s \<and> destructorCalls s' = destructorCalls s"
  using assms by (rule insertAt_Return) simp

lemma insertAt_forEach_mset:
  assumes "pool_inv s" and "insertAt x y v s = Return () s'"
  shows "mset (forEach s') = mset (forEach s) + {#(v, x, y)#}"
proof -
  from assms(2) obtain a p where g: "FastPool_getOne (itemPool s) = Return (Some a) p"
    and m: "mset (all_items s') = mset (all_items s) + {#a#}"
    and it: "items s' = (items s)(a := \<lparr>item_x = x, item_y = y, item_value = v\<rparr>)"
    by (rule insertAt_all_items)
  from assms(1) have "pool_ok (itemPool s) (set (all_items s))" by (simp add: pool_inv_def)
  from FastPool_getOne_pool_ok [OF this] g have fresh: "a \<notin> set (all_items s)" by auto
  then have "map (record_of s') (all_items s) = map (record_of s) (all_items s)"
    by (auto simp: it record_of_def)
  then have old: "image_mset (record_of s') (mset (all_items s)) = mset (forEach s)"
    unfolding forEach_map by (simp only: mset_map [symmetric])
  have "mset (forEach s') = image_mset (record_of s') (mset (all_items s'))"
    by (simp add: forEach_map)
  also have "\<dots> = image_mset (record_of s') (mset (all_items s)) + {#record_of s' a#}"
    unfolding m by simp
  finally show ?thesis unfolding old by (simp add: it record_of_def)
qed

lemma values_at_removed:
  "image_mset fst (filter_mset (\<lambda>r. snd r = p) (filter_mset (\<lambda>r. r \<noteq> (v, q)) M)) +
     (if p = q then replicate_mset (count M (v, q)) v else {#})
   = image_mset fst (filter_mset (\<lambda>r. snd r = p) M)"
  by (induction M) (auto simp: prod_eq_iff)

lemma values_at_count:
  "count (image_mset fst (filter_mset (\<lambda>r. snd r = p) M)) v = count M (v, p)"
  by (induction M) (auto simp: prod_eq_iff)

lemma move_Return:
  assumes "move a b c d v s = Return () s'"
  obtains s1 where "removeAt a b v s = Return () s1" "insertAt c d v s1 = Return () s'"
  using assms by (cases "removeAt a b v s") (simp_all add: move_def)

lemma get_Inr:
  assumes "get x y None s = Inr vs"
  obtains bb where "0 \<le> x" "x < gridWidth s" "0 \<le> y" "y < gridHeight s"
    "bucket_at (buckets s) (bucketIndex x (bucketWidth s)) (bucketIndex y (bucketHeight s)) = Some bb"
    "vs = map fst (filter (\<lambda>r. snd r = (x, y)) (records s bb))"
  using assms unfolding get_unfold
  by (auto simp: not_le not_less split: if_splits option.splits)

lemma move_gets:
  assumes "pool_inv s" and "removeAt a b v s = Return () s1"
    and "pool_inv s1" and "insertAt c d v s1 = Return () s'"
    and "bucket_at (buckets s) (bucketIndex a (bucketWidth s)) (bucketIndex b (bucketHeight s)) = Some b0"
    and "get x y None s = Inr vs"
  shows "\<exists>vs'. get x y None s' = Inr vs' \<and>
           mset vs' + (if x = a \<and> y = b
                       then replicate_mset (count (mset (records s b0)) (v, a, b)) v else {#})
             = mset vs + (if x = c \<and> y = d then {#v#} else {#})"
proof -
  let ?i = "bucketIndex x (bucketWidth s)" and ?j = "bucketIndex y (bucketHeight s)"
  let ?F = "\<lambda>M. image_mset fst (filter_mset (\<lambda>r. snd r = (x, y)) M)"
  from assms(6) obtain bb where
    inb: "0 \<le> x" "x < gridWidth s" "0 \<le> y" "y < gridHeight s"
    and bb: "bucket_at (buckets s) ?i ?j = Some bb"
    and vs: "vs = map fst (filter (\<lambda>r. snd r = (x, y)) (records s bb))"
    by (rule get_Inr)
  from removeAt_dims [OF assms(2)] have d1: "gridWidth s1 = gridWidth s" "gridHeight s1 = gridHeight s"
    "bucketWidth s1 = bucketWidth s" "bucketHeight s1 = bucketHeight s" by simp_all
  from insertAt_dims [OF assms(4)] d1
  have d2: "gridWidth s' = gridWidth s" "gridHeight s' = gridHeight s"
    "bucketWidth s' = bucketWidth s" "bucketHeight s' = bucketHeight s" by simp_all
  from removeAt_buckets [OF assms(1,2) bb] obtain bb1 where
    bb1: "bucket_at (buckets s1) ?i ?j = Some bb1"
    and r1: "mset (records s1 bb1) =
       (if ?i = bucketIndex a (bucketWidth s) \<and> ?j = bucketIndex b (bucketHeight s)
        then filter_mset (\<lambda>r. r \<noteq> (v, a, b)) (mset (records s bb))
        else mset (records s bb))"
    by blast
  from insertAt_buckets [OF assms(3,4) bb1] obtain bb' where
    bb': "bucket_at (buckets s') ?i ?j = Some bb'"
    and r2: "mset (records s' bb') =
       mset (records s1 bb1) +
       (if ?i = bucketIndex c (bucketWidth s) \<and> ?j = bucketIndex d (bucketHeight s)
        then {#(v, c, d)#} else {#})"
    unfolding d1 by blast
  have g: "get x y None s' = Inr (map fst (filter (\<lambda>r. snd r = (x, y)) (records s' bb')))"
    using inb bb' by (intro get_records) (simp_all add: d2)
  have added: "?F (mset (records s' bb')) =
      ?F (mset (records s1 bb1)) + (if x = c \<and> y = d then {#v#} else {#})"
    unfolding r2 by auto
  have removed: "?F (mset (records s1 bb1)) +
      (if x = a \<and> y = b then replicate_mset (count (mset (records s b0)) (v, a, b)) v else {#})
      = ?F (mset (records s bb))"
  proof (cases "x = a \<and> y = b")
    case True
    with bb assms(5) have "bb = b0" by simp
    with True r1 values_at_removed [of "(x, y)" v "(a, b)" "mset (records s bb)"]
    show ?thesis by simp
  next
    case False
    then have "(x, y) \<noteq> (a, b)" by simp
    with values_at_removed [of "(x, y)" v "(a, b)" "mset (records s bb)"]
    have eqF: "?F (filter_mset (\<lambda>r. r \<noteq> (v, a, b)) (mset (records s bb))) = ?F (mset (records s bb))"
      by (simp only: if_False add_0_right)
    have "?F (mset (records s1 bb1)) = ?F (mset (records s bb))"
    proof (cases "?i = bucketIndex a (bucketWidth s) \<and> ?j = bucketIndex b (bucketHeight s)")
      case same: True
      with r1 have m1: "mset (records s1 bb1) = filter_mset (\<lambda>r. r \<noteq> (v, a, b)) (mset (records s bb))"
        by simp
      show ?thesis unfolding m1 by (rule eqF)
    next
      case other: False
      with r1 have m1: "mset (records s1 bb1) = mset (records s bb)" by simp
      show ?thesis unfolding m1 by (rule refl)
    qed
    then show ?thesis unfolding if_not_P [OF False] by simp
  qed
  have "mset (map fst (filter (\<lambda>r. snd r = (x, y)) (records s' bb'))) +
      (if x = a \<and> y = b then replicate_mset (count (mset (records s b0)) (v, a, b)) v else {#})
      = mset vs + (if x = c \<and> y = d then {#v#} else {#})"
  proof -
    have "mset (map fst (filter (\<lambda>r. snd r = (x, y)) (records s' bb'))) = ?F (mset (records s' bb'))"
      by simp
    moreover have "mset vs = ?F (mset (records s bb))" by (simp add: vs)
    ultimately show ?thesis using added removed by (simp only: ac_simps)
  qed
  with g show ?thesis by blast
qed

lemma move_effect_get:
  assumes "grid_inv s" and "move a b c d v s = Return () s'"
  obtains vs0 where "get a b None s = Inr vs0" "v \<in> set vs0"
    "grid_size s' = grid_size s - int (count (mset vs0) v) + 1"
    "mset (forEach s') + replicate_mset (count (mset vs0) v) (v, a, b)
       = mset (forEach s) + {#(v, c, d)#}"
    "\<forall>x y vs. get x y None s = Inr vs \<longrightarrow>
       (\<exists>vs'. get x y None s' = Inr vs' \<and>
         mset vs' + (if x = a \<and> y = b then replicate_mset (count (mset vs0) v) v else {#})
           = mset vs + (if x = c \<and> y = d then {#v#} else {#}))"
proof -
  from assms(1) have pi: "pool_inv s" by (simp add: grid_inv_def)
  from assms(2) obtain s1 where r: "removeAt a b v s = Return () s1"
    and i: "insertAt c d v s1 = Return () s'" by (rule move_Return)
  from removeAt_grid_inv [OF assms(1) r] have pi1: "pool_inv s1" by (simp add: grid_inv_def)
  from r obtain b0 where inb: "0 \<le> a" "a < gridWidth s" "0 \<le> b" "b < gridHeight s"
    and b0: "bucket_at (buckets s) (bucketIndex a (bucketWidth s)) (bucketIndex b (bucketHeight s)) = Some b0"
    by (rule removeAt_Return)
  let ?k = "count (mset (records s b0)) (v, a, b)"
  let ?vs0 = "map fst (filter (\<lambda>r. snd r = (a, b)) (records s b0))"
  from pi r obtain b0' where
    "bucket_at (buckets s) (bucketIndex a (bucketWidth s)) (bucketIndex b (bucketHeight s)) = Some b0'"
    and hit': "(v, a, b) \<in> set (records s b0')"
    and size': "grid_size s1 = grid_size s - int (count (mset (records s b0')) (v, a, b))"
    and fe': "mset (forEach s1) + replicate_mset (count (mset (records s b0')) (v, a, b)) (v, a, b)
       = mset (forEach s)"
    by (rule removeAt_result)
  with b0 have same: "b0' = b0" by simp
  have g0: "get a b None s = Inr ?vs0" using inb b0 by (rule get_records)
  have "mset ?vs0 = image_mset fst (filter_mset (\<lambda>r. snd r = (a, b)) (mset (records s b0)))"
    by simp
  then have k: "count (mset ?vs0) v = ?k" by (simp only: values_at_count)
  from hit' have mem: "v \<in> set ?vs0" unfolding same by force
  from i have "grid_size s' = grid_size s1 + 1"
    by (rule insertAt_Return) simp
  with size' have size: "grid_size s' = grid_size s - int (count (mset ?vs0) v) + 1"
    unfolding same k by simp
  from insertAt_forEach_mset [OF pi1 i] fe'
  have fe: "mset (forEach s') + replicate_mset (count (mset ?vs0) v) (v, a, b)
       = mset (forEach s) + {#(v, c, d)#}"
    unfolding same k by (simp add: ac_simps)
  have gets: "\<exists>vs'. get x y None s' = Inr vs' \<and>
         mset vs' + (if x = a \<and> y = b then replicate_mset (count (mset ?vs0) v) v else {#})
           = mset vs + (if x = c \<and> y = d then {#v#} else {#})"
    if "get x y None s = Inr vs" for x y vs
    unfolding k using pi r pi1 i b0 that by (rule move_gets)
  then have "\<forall>x y vs. get x y None s = Inr vs \<longrightarrow>
       (\<exists>vs'. get x y None s' = Inr vs' \<and>
         mset vs' + (if x = a \<and> y = b then replicate_mset (count (mset ?vs0) v) v else {#})
           = mset vs + (if x = c \<and> y = d then {#v#} else {#}))"
    by blast
  from that [OF g0 mem size fe this] show thesis .
qed

text \<open>
  C5, amended. In a grid that satisfies the invariants of the class, whenever
  \<open>move(a, b, c, d, v)\<close> returns: \<open>get(a, b)\<close> contained \<open>v\<close> before the call, say \<open>k\<close> times,
  and afterwards \<open>size\<close> is the former \<open>size - k + 1\<close>, so it is unchanged exactly when \<open>v\<close>
  was stored once at the source; \<open>get(c, d)\<close> contains \<open>v\<close>; \<open>get(a, b)\<close> does not contain \<open>v\<close>
  unless the destination is the source; and at every coordinate \<open>get\<close> returns, up to
  order, what it returned before, less the \<open>k\<close> copies of \<open>v\<close> at the source, plus one \<open>v\<close> at
  the destination. So when the destination is the source and \<open>v\<close> was stored there once,
  \<open>size\<close> and the values returned by every \<open>get\<close> are unchanged up to their order.
\<close>

theorem move_effect:
  assumes "grid_inv s" and "move a b c d v s = Return () s'"
  shows "\<exists>vs0. get a b None s = Inr vs0 \<and> v \<in> set vs0 \<and>
           grid_size s' = grid_size s - int (count (mset vs0) v) + 1 \<and>
           (\<exists>vs. get c d None s' = Inr vs \<and> v \<in> set vs) \<and>
           (a \<noteq> c \<or> b \<noteq> d \<longrightarrow> (\<exists>vs. get a b None s' = Inr vs \<and> v \<notin> set vs)) \<and>
           (\<forall>x y vs. get x y None s = Inr vs \<longrightarrow>
              (\<exists>vs'. get x y None s' = Inr vs' \<and>
                 mset vs' + (if x = a \<and> y = b
                             then replicate_mset (count (mset vs0) v) v else {#})
                   = mset vs + (if x = c \<and> y = d then {#v#} else {#}))) \<and>
           mset (forEach s') + replicate_mset (count (mset vs0) v) (v, a, b)
             = mset (forEach s) + {#(v, c, d)#} \<and>
           (count (mset vs0) v = 1 \<and> a = c \<and> b = d \<longrightarrow>
              grid_size s' = grid_size s \<and> mset (forEach s') = mset (forEach s) \<and>
              (\<forall>x y vs. get x y None s = Inr vs \<longrightarrow>
                 (\<exists>vs'. get x y None s' = Inr vs' \<and> mset vs' = mset vs)))"
proof -
  note m = assms(2)
  from assms obtain vs0 where g0: "get a b None s = Inr vs0" and mem: "v \<in> set vs0"
    and size: "grid_size s' = grid_size s - int (count (mset vs0) v) + 1"
    and fe: "mset (forEach s') + replicate_mset (count (mset vs0) v) (v, a, b)
       = mset (forEach s) + {#(v, c, d)#}"
    and all: "\<forall>x y vs. get x y None s = Inr vs \<longrightarrow>
       (\<exists>vs'. get x y None s' = Inr vs' \<and>
         mset vs' + (if x = a \<and> y = b then replicate_mset (count (mset vs0) v) v else {#})
           = mset vs + (if x = c \<and> y = d then {#v#} else {#}))"
    by (rule move_effect_get)
  note gets = all [rule_format]
  from m obtain s1 where "insertAt c d v s1 = Return () s'" by (rule move_Return)
  then have dest: "\<exists>vs. get c d None s' = Inr vs \<and> v \<in> set vs" by (rule insertAt_get)
  have src: "\<exists>vs. get a b None s' = Inr vs \<and> v \<notin> set vs" if ne: "a \<noteq> c \<or> b \<noteq> d"
  proof -
    from gets [OF g0] ne obtain vs' where g': "get a b None s' = Inr vs'"
      and eq: "mset vs' + replicate_mset (count (mset vs0) v) v = mset vs0"
      by auto
    from eq have "count (mset vs' + replicate_mset (count (mset vs0) v) v) v = count (mset vs0) v"
      by simp
    then have "count (mset vs') v = 0" by simp
    then have "v \<notin> set vs'" by (simp add: count_eq_zero_iff)
    with g' show ?thesis by blast
  qed
  have noop: "grid_size s' = grid_size s \<and> mset (forEach s') = mset (forEach s) \<and>
      (\<forall>x y vs. get x y None s = Inr vs \<longrightarrow>
         (\<exists>vs'. get x y None s' = Inr vs' \<and> mset vs' = mset vs))"
    if one: "count (mset vs0) v = 1 \<and> a = c \<and> b = d"
  proof (intro conjI allI impI)
    from size one show "grid_size s' = grid_size s" by simp
    from fe one show "mset (forEach s') = mset (forEach s)" by simp
    fix x y vs assume "get x y None s = Inr vs"
    from gets [OF this] one show "\<exists>vs'. get x y None s' = Inr vs' \<and> mset vs' = mset vs"
      by (cases "x = c \<and> y = d") auto
  qed
  from src have src': "a \<noteq> c \<or> b \<noteq> d \<longrightarrow> (\<exists>vs. get a b None s' = Inr vs \<and> v \<notin> set vs)"
    by blast
  from noop have noop': "count (mset vs0) v = 1 \<and> a = c \<and> b = d \<longrightarrow>
      grid_size s' = grid_size s \<and> mset (forEach s') = mset (forEach s) \<and>
      (\<forall>x y vs. get x y None s = Inr vs \<longrightarrow>
         (\<exists>vs'. get x y None s' = Inr vs' \<and> mset vs' = mset vs))"
    by blast
  show ?thesis
    by (rule exI [of _ vs0], intro conjI) (fact g0 mem size dest src' all fe noop')+
qed

lemma example_single_forEach: "forEach example_single = [(Element 5, 0, 0)]"
  by (simp add: forEach_def all_items_def example_single_fields)

theorem move_effect_witness:
  "get 0 0 None example_single = Inr [Element 5] \<and>
   move 0 0 4 5 (Element 5) example_single
     = Return () (state_of (move 0 0 4 5 (Element 5) example_single)) \<and>
   grid_size (state_of (move 0 0 4 5 (Element 5) example_single)) = 1 \<and>
   forEach (state_of (move 0 0 4 5 (Element 5) example_single)) = [(Element 5, 4, 5)]"
proof -
  let ?s' = "state_of (move 0 0 4 5 (Element 5) example_single)"
  have g: "get 0 0 None example_single = Inr [Element 5]"
    by (rule example_single_move_out)
  have m: "move 0 0 4 5 (Element 5) example_single = Return () ?s'"
    by (simp add: example_single_def grid_eval removeAt_loop.simps)
  from move_effect [OF example_single_inv(1) m] obtain vs0 where
    "get 0 0 None example_single = Inr vs0"
    and "grid_size ?s' = grid_size example_single - int (count (mset vs0) (Element 5)) + 1"
    and "mset (forEach ?s') + replicate_mset (count (mset vs0) (Element 5)) (Element 5, 0, 0)
           = mset (forEach example_single) + {#(Element 5, 4, 5)#}"
    by blast
  with g have sz: "grid_size ?s' = 1" and "mset (forEach ?s') = {#(Element 5, 4, 5)#}"
    by (simp_all add: example_single_fields example_single_forEach)
  then have "forEach ?s' = [(Element 5, 4, 5)]" by simp
  with g m sz show ?thesis by (intro conjI)
qed

lemma example_pair_fields:
  "gridWidth example_pair = 9" "gridHeight example_pair = 7"
  "bucketWidth example_pair = 3" "bucketHeight example_pair = 4"
  "grid_size example_pair = 2"
  "buckets example_pair = [[[1033, 1032], []], [[], []], [[], []]]"
  "items example_pair 1033 = \<lparr>item_x = 0, item_y = 0, item_value = Element 5\<rparr>"
  "items example_pair 1032 = \<lparr>item_x = 0, item_y = 0, item_value = Element 6\<rparr>"
  by (simp_all add: example_pair_def example_single_def grid_eval)

lemma example_twice_moved:
  "move 0 0 1 1 (Element 5) example_twice
     = Return () (state_of (move 0 0 1 1 (Element 5) example_twice))"
  "grid_size (state_of (move 0 0 1 1 (Element 5) example_twice)) = 1"
  "move 0 0 0 0 (Element 5) example_twice
     = Return () (state_of (move 0 0 0 0 (Element 5) example_twice))"
  "grid_size (state_of (move 0 0 0 0 (Element 5) example_twice)) = 1"
  "get 0 0 None (state_of (move 0 0 0 0 (Element 5) example_twice)) = Inr [Element 5]"
  by (simp_all add: example_twice_def example_single_def grid_eval removeAt_loop.simps)

lemma example_pair_moved:
  "move 0 0 0 0 (Element 5) example_pair
     = Return () (state_of (move 0 0 0 0 (Element 5) example_pair))"
  "get 0 0 None example_pair = Inr [Element 5, Element 6]"
  "get 0 0 None (state_of (move 0 0 0 0 (Element 5) example_pair)) = Inr [Element 6, Element 5]"
  by (simp_all add: example_pair_def example_single_def grid_eval removeAt_loop.simps)

text \<open>
  C5 as stated fails when \<open>v\<close> is stored more than once at the source, which the class
  allows: with 5 stored twice at (0, 0), \<open>move(0, 0, 1, 1, 5)\<close> returns and \<open>size\<close> goes from 2
  to 1; \<open>move(0, 0, 0, 0, 5)\<close> returns too, after which \<open>size\<close> is 1 and \<open>get(0, 0)\<close> holds one 5
  instead of two. And a move onto the source coordinate of a value stored once reorders its
  bucket: with 5 and 6 stored at (0, 0), \<open>get(0, 0)\<close> is [5, 6] before \<open>move(0, 0, 0, 0, 5)\<close>
  and [6, 5] after it.
\<close>

theorem move_effect_counterexample:
  "get 0 0 None example_twice = Inr [Element 5, Element 5] \<and>
   grid_size example_twice = 2 \<and>
   move 0 0 1 1 (Element 5) example_twice
     = Return () (state_of (move 0 0 1 1 (Element 5) example_twice)) \<and>
   grid_size (state_of (move 0 0 1 1 (Element 5) example_twice)) = 1 \<and>
   move 0 0 0 0 (Element 5) example_twice
     = Return () (state_of (move 0 0 0 0 (Element 5) example_twice)) \<and>
   grid_size (state_of (move 0 0 0 0 (Element 5) example_twice)) = 1 \<and>
   get 0 0 None (state_of (move 0 0 0 0 (Element 5) example_twice)) = Inr [Element 5] \<and>
   move 0 0 0 0 (Element 5) example_pair
     = Return () (state_of (move 0 0 0 0 (Element 5) example_pair)) \<and>
   get 0 0 None example_pair = Inr [Element 5, Element 6] \<and>
   get 0 0 None (state_of (move 0 0 0 0 (Element 5) example_pair)) = Inr [Element 6, Element 5]"
proof -
  have "get 0 0 None example_twice = Inr [Element 5, Element 5]"
    by (simp add: get_unfold example_twice_fields example_twice_bucket
        bucket_at_def nth_opt_def bucketIndex_def toInt32_def)
  with example_twice_moved example_pair_moved show ?thesis
    by (simp add: example_twice_fields)
qed

lemma resize_loop_Cons:
  assumes "resize_loop gw gh bw bh (item # rest) nb s = Return nb' s'"
  obtains (dropped)
      "item_x (items s item) \<ge> gw \<or> item_y (items s item) \<ge> gh"
      "resize_loop gw gh bw bh rest nb
         ((park Undefined item s)
            \<lparr>destructorCalls := (if destructorCallback s
                                 then destructorCalls s @ [record_of s item]
                                 else destructorCalls s)\<rparr>) = Return nb' s'"
    | (kept) b where
      "\<not> (item_x (items s item) \<ge> gw \<or> item_y (items s item) \<ge> gh)"
      "bucket_at nb (bucketIndex (item_x (items s item)) bw)
         (bucketIndex (item_y (items s item)) bh) = Some b"
      "resize_loop gw gh bw bh rest
         (set_bucket nb (bucketIndex (item_x (items s item)) bw)
            (bucketIndex (item_y (items s item)) bh) (b @ [item])) s = Return nb' s'"
proof (cases "item_x (items s item) \<ge> gw \<or> item_y (items s item) \<ge> gh")
  case True
  have "(park Undefined item s)
            \<lparr>destructorCalls := (if destructorCallback s
                                 then destructorCalls s @ [record_of s item]
                                 else destructorCalls s)\<rparr>
      = s\<lparr>destructorCalls :=
                  (if destructorCallback s
                   then destructorCalls s @
                          [(item_value (items s item), item_x (items s item), item_y (items s item))]
                   else destructorCalls s),
                items := (items s)(item := (items s item)\<lparr>item_value := Undefined\<rparr>),
                itemPool := FastPool_release item (itemPool s),
                grid_size := grid_size s - 1\<rparr>"
    by (simp add: park_def record_of_def)
  with assms True show ?thesis by (intro dropped) (simp_all only: resize_loop.simps if_True)
next
  case False
  show ?thesis
  proof (cases "bucket_at nb (bucketIndex (item_x (items s item)) bw)
         (bucketIndex (item_y (items s item)) bh)")
    case None
    with assms False show ?thesis by (simp add: Let_def)
  next
    case (Some b)
    with assms False show ?thesis by (intro kept [of b]) (simp_all add: Let_def)
  qed
qed

lemma dropped_coordinates:
  "item_x (items ((park pk item s)\<lparr>destructorCalls := X\<rparr>) a) = item_x (items s a)"
  "item_y (items ((park pk item s)\<lparr>destructorCalls := X\<rparr>) a) = item_y (items s a)"
  "destructorCallback ((park pk item s)\<lparr>destructorCalls := X\<rparr>) = destructorCallback s"
  "destructorCalls ((park pk item s)\<lparr>destructorCalls := X\<rparr>) = X"
  "a \<noteq> item \<Longrightarrow> record_of ((park pk item s)\<lparr>destructorCalls := X\<rparr>) a = record_of s a"
  by (simp_all add: record_of_def)

lemma fold_park_destructorCalls:
  "fold (park pk) rs (s\<lparr>destructorCalls := X\<rparr>) = (fold (park pk) rs s)\<lparr>destructorCalls := X\<rparr>"
proof (induction rs arbitrary: s)
  case Nil
  show ?case by simp
next
  case (Cons a rs)
  have eq: "park pk a (s\<lparr>destructorCalls := X\<rparr>) = (park pk a s)\<lparr>destructorCalls := X\<rparr>"
    by (simp add: park_def)
  show ?case by (simp only: fold_simps eq Cons.IH)
qed

lemma resize_loop_state:
  assumes "resize_loop gw gh bw bh rest nb s = Return nb' s'" and "distinct rest"
  shows "s' = (fold (park Undefined)
                 (filter (\<lambda>a. item_x (items s a) \<ge> gw \<or> item_y (items s a) \<ge> gh) rest) s)
              \<lparr>destructorCalls := destructorCalls s @
                 (if destructorCallback s
                  then map (record_of s)
                         (filter (\<lambda>a. item_x (items s a) \<ge> gw \<or> item_y (items s a) \<ge> gh) rest)
                  else [])\<rparr>"
  using assms
proof (induction rest arbitrary: nb s)
  case Nil
  then show ?case by simp
next
  case (Cons item rest)
  let ?out = "\<lambda>a. item_x (items s a) \<ge> gw \<or> item_y (items s a) \<ge> gh"
  from Cons.prems(2) have d: "distinct rest" and notin: "item \<notin> set rest" by simp_all
  from Cons.prems(1) show ?case
  proof (cases rule: resize_loop_Cons)
    case dropped
    let ?X = "if destructorCallback s then destructorCalls s @ [record_of s item]
              else destructorCalls s"
    let ?s1 = "(park Undefined item s)\<lparr>destructorCalls := ?X\<rparr>"
    let ?D = "filter ?out rest"
    have r1: "record_of ?s1 a = record_of s a" if "a \<in> set rest" for a
    proof -
      from that notin have "a \<noteq> item" by auto
      then show ?thesis by (rule dropped_coordinates(5))
    qed
    have recs: "map (record_of ?s1) ?D = map (record_of s) ?D"
      by (intro map_cong refl r1) simp
    from Cons.IH [OF dropped(2) d]
    have "s' = (fold (park Undefined) ?D ?s1)
              \<lparr>destructorCalls := ?X @
                 (if destructorCallback s then map (record_of ?s1) ?D else [])\<rparr>"
      by (simp only: dropped_coordinates)
    then have "s' = (fold (park Undefined) ?D (park Undefined item s))
              \<lparr>destructorCalls := ?X @
                 (if destructorCallback s then map (record_of s) ?D else [])\<rparr>"
      unfolding recs fold_park_destructorCalls by simp
    with dropped(1) show ?thesis by simp
  next
    case (kept b)
    from Cons.IH [OF kept(3) d] kept(1) show ?thesis by simp
  qed
qed

lemma resize_loop_buckets:
  assumes "resize_loop gw gh bw bh rest nb s = Return nb' s'"
  shows "mset (concat (concat nb')) =
           mset (concat (concat nb)) +
           mset (filter (\<lambda>a. \<not> (item_x (items s a) \<ge> gw \<or> item_y (items s a) \<ge> gh)) rest)"
  using assms
proof (induction rest arbitrary: nb s)
  case Nil
  then show ?case by simp
next
  case (Cons item rest)
  from Cons.prems show ?case
  proof (cases rule: resize_loop_Cons)
    case dropped
    from Cons.IH [OF dropped(2)] dropped(1) show ?thesis
      by (simp only: dropped_coordinates) simp
  next
    case (kept b)
    from mset_set_bucket [OF kept(2), of "b @ [item]"]
    have "mset (concat (concat (set_bucket nb (bucketIndex (item_x (items s item)) bw)
            (bucketIndex (item_y (items s item)) bh) (b @ [item]))))
          = mset (concat (concat nb)) + {#item#}"
      by simp
    with Cons.IH [OF kept(3)] kept(1) show ?thesis by simp
  qed
qed

lemma resize_loop_grows:
  assumes "resize_loop gw gh bw bh rest nb s = Return nb' s'" and "bucket_at nb i j = Some b"
  shows "\<exists>b'. bucket_at nb' i j = Some b' \<and> set b \<subseteq> set b'"
  using assms
proof (induction rest arbitrary: nb s b)
  case Nil
  then show ?case by simp
next
  case (Cons item rest)
  from Cons.prems(1) show ?case
  proof (cases rule: resize_loop_Cons)
    case dropped
    from Cons.IH [OF dropped(2) Cons.prems(2)] show ?thesis .
  next
    case (kept b0)
    let ?i = "bucketIndex (item_x (items s item)) bw"
    let ?j = "bucketIndex (item_y (items s item)) bh"
    show ?thesis
    proof (cases "i = ?i \<and> j = ?j")
      case True
      with kept(2) Cons.prems(2) have "b0 = b" by simp
      with bucket_at_set_bucket [OF kept(2), of "b0 @ [item]"] True
      have "bucket_at (set_bucket nb ?i ?j (b0 @ [item])) i j = Some (b @ [item])" by simp
      from Cons.IH [OF kept(3) this] show ?thesis by auto
    next
      case False
      with bucket_at_set_bucket_other [OF kept(2), of i j "b0 @ [item]"] Cons.prems(2)
      have "bucket_at (set_bucket nb ?i ?j (b0 @ [item])) i j = Some b" by auto
      from Cons.IH [OF kept(3) this] show ?thesis .
    qed
  qed
qed

lemma resize_loop_filed:
  assumes "resize_loop gw gh bw bh rest nb s = Return nb' s'" and "a \<in> set rest"
    and "\<not> (item_x (items s a) \<ge> gw \<or> item_y (items s a) \<ge> gh)"
  shows "\<exists>b. bucket_at nb' (bucketIndex (item_x (items s a)) bw)
                (bucketIndex (item_y (items s a)) bh) = Some b \<and> a \<in> set b"
  using assms
proof (induction rest arbitrary: nb s)
  case Nil
  then show ?case by simp
next
  case (Cons item rest)
  from Cons.prems(1) show ?case
  proof (cases rule: resize_loop_Cons)
    case dropped
    with Cons.prems(3) have "a \<noteq> item" by auto
    with Cons.prems(2) have mem: "a \<in> set rest" by simp
    have nout: "\<not> (item_x (items ((park Undefined item s)
            \<lparr>destructorCalls := (if destructorCallback s
                                 then destructorCalls s @ [record_of s item]
                                 else destructorCalls s)\<rparr>) a) \<ge> gw \<or>
              item_y (items ((park Undefined item s)
            \<lparr>destructorCalls := (if destructorCallback s
                                 then destructorCalls s @ [record_of s item]
                                 else destructorCalls s)\<rparr>) a) \<ge> gh)"
      unfolding dropped_coordinates by (rule Cons.prems(3))
    from Cons.IH [OF dropped(2) mem nout] show ?thesis unfolding dropped_coordinates .
  next
    case (kept b)
    show ?thesis
    proof (cases "a = item")
      case True
      from bucket_at_set_bucket [OF kept(2), of "b @ [item]"]
        resize_loop_grows [OF kept(3)] True
      show ?thesis by fastforce
    next
      case False
      with Cons.prems(2) have "a \<in> set rest" by simp
      from Cons.IH [OF kept(3) this Cons.prems(3)] show ?thesis .
    qed
  qed
qed

lemma resize_to_effect:
  assumes "grid_inv s" and "resize_to gw gh bw bh s = Return () s'"
  obtains nb' where
    "s' = (fold (park Undefined)
             (filter (\<lambda>a. item_x (items s a) \<ge> gw \<or> item_y (items s a) \<ge> gh) (all_items s)) s)
          \<lparr>destructorCalls := destructorCalls s @
             (if destructorCallback s
              then map (record_of s)
                     (filter (\<lambda>a. item_x (items s a) \<ge> gw \<or> item_y (items s a) \<ge> gh)
                        (all_items s))
              else []),
           gridWidth := gw, gridHeight := gh, bucketWidth := bw, bucketHeight := bh,
           buckets := nb'\<rparr>"
    "mset (concat (concat nb')) =
       mset (filter (\<lambda>a. \<not> (item_x (items s a) \<ge> gw \<or> item_y (items s a) \<ge> gh)) (all_items s))"
    "\<forall>a\<in>set (all_items s). \<not> (item_x (items s a) \<ge> gw \<or> item_y (items s a) \<ge> gh) \<longrightarrow>
       (\<exists>b. bucket_at nb' (bucketIndex (item_x (items s a)) bw)
               (bucketIndex (item_y (items s a)) bh) = Some b \<and> a \<in> set b)"
proof -
  from assms(2) obtain nb nb' s1 where
    mk: "make_buckets gw gh bw bh = Some nb"
    and loop: "resize_loop gw gh bw bh (all_items s) nb s = Return nb' s1"
    and s': "s' = s1\<lparr>gridWidth := gw, gridHeight := gh, bucketWidth := bw, bucketHeight := bh,
             buckets := nb'\<rparr>"
    by (rule resize_to_Return)
  from assms(1) have d: "distinct (all_items s)" by (simp add: grid_inv_def pool_inv_def)
  note st = resize_loop_state [OF loop d]
  from resize_loop_buckets [OF loop] make_buckets_empty [OF mk]
  have m: "mset (concat (concat nb')) =
       mset (filter (\<lambda>a. \<not> (item_x (items s a) \<ge> gw \<or> item_y (items s a) \<ge> gh)) (all_items s))"
    by simp
  from resize_loop_filed [OF loop]
  have f: "\<forall>a\<in>set (all_items s). \<not> (item_x (items s a) \<ge> gw \<or> item_y (items s a) \<ge> gh) \<longrightarrow>
       (\<exists>b. bucket_at nb' (bucketIndex (item_x (items s a)) bw)
               (bucketIndex (item_y (items s a)) bh) = Some b \<and> a \<in> set b)"
    by blast
  show thesis by (rule that [OF _ m f]) (simp add: s' st)
qed

lemma resize_to_kept:
  assumes "grid_inv s" and "resize_to gw gh bw bh s = Return () s'"
  shows "mset (all_items s') =
           filter_mset (\<lambda>a. \<not> (item_x (items s a) \<ge> gw \<or> item_y (items s a) \<ge> gh))
             (mset (all_items s))"
    and "\<forall>a\<in>set (all_items s'). record_of s' a = record_of s a"
    and "gridWidth s' = gw" "gridHeight s' = gh" "bucketWidth s' = bw" "bucketHeight s' = bh"
    and "destructorCalls s' = destructorCalls s @
           (if destructorCallback s
            then map (record_of s)
                   (filter (\<lambda>a. item_x (items s a) \<ge> gw \<or> item_y (items s a) \<ge> gh) (all_items s))
            else [])"
proof -
  let ?out = "\<lambda>a. item_x (items s a) \<ge> gw \<or> item_y (items s a) \<ge> gh"
  from assms obtain nb' where
    s': "s' = (fold (park Undefined) (filter ?out (all_items s)) s)
          \<lparr>destructorCalls := destructorCalls s @
             (if destructorCallback s then map (record_of s) (filter ?out (all_items s)) else []),
           gridWidth := gw, gridHeight := gh, bucketWidth := bw, bucketHeight := bh,
           buckets := nb'\<rparr>"
    and m: "mset (concat (concat nb')) = mset (filter (\<lambda>a. \<not> ?out a) (all_items s))"
    by (rule resize_to_effect)
  have all: "all_items s' = concat (concat nb')" by (simp add: s' all_items_def)
  show kept: "mset (all_items s') = filter_mset (\<lambda>a. \<not> ?out a) (mset (all_items s))"
    unfolding all m by simp
  show "\<forall>a\<in>set (all_items s'). record_of s' a = record_of s a"
  proof
    fix a assume "a \<in> set (all_items s')"
    then have "a \<in># mset (all_items s')" by simp
    then have "\<not> ?out a" unfolding kept by simp
    then have nin: "a \<notin> set (filter ?out (all_items s))" by simp
    have "items s' a = items (fold (park Undefined) (filter ?out (all_items s)) s) a"
      by (simp add: s')
    also have "\<dots> = items s a" unfolding fold_park_items using nin by (rule if_not_P)
    finally show "record_of s' a = record_of s a" by (simp add: record_of_def)
  qed
  show "gridWidth s' = gw" "gridHeight s' = gh" "bucketWidth s' = bw" "bucketHeight s' = bh"
    by (simp_all add: s')
  show "destructorCalls s' = destructorCalls s @
           (if destructorCallback s then map (record_of s) (filter ?out (all_items s)) else [])"
    by (simp add: s')
qed

lemma resize_to_forEach:
  assumes "grid_inv s" and "resize_to gw gh bw bh s = Return () s'"
  shows "mset (forEach s') = filter_mset (\<lambda>(v, x, y). x < gw \<and> y < gh) (mset (forEach s))"
proof -
  let ?P = "\<lambda>(v :: 'a element, x, y). x < gw \<and> y < gh"
  note k = resize_to_kept [OF assms]
  from k(2) have "map (record_of s') (all_items s') = map (record_of s) (all_items s')" by simp
  then have "mset (forEach s') = image_mset (record_of s) (mset (all_items s'))"
    unfolding forEach_map by (simp only: mset_map [symmetric])
  also have "\<dots> = image_mset (record_of s)
      (filter_mset (\<lambda>a. ?P (record_of s a)) (mset (all_items s)))"
    unfolding k(1) by (simp add: record_of_def not_le)
  also have "\<dots> = filter_mset ?P (image_mset (record_of s) (mset (all_items s)))"
    by (rule image_mset_filter_mset_swap)
  finally show ?thesis by (simp add: forEach_map)
qed

lemma resize_to_destructorCalls:
  assumes "grid_inv s" and "resize_to gw gh bw bh s = Return () s'"
  shows "destructorCalls s' = destructorCalls s @
           (if destructorCallback s
            then filter (\<lambda>(v, x, y). \<not> (x < gw \<and> y < gh)) (forEach s) else [])"
proof -
  have "map (record_of s)
          (filter (\<lambda>a. item_x (items s a) \<ge> gw \<or> item_y (items s a) \<ge> gh) (all_items s))
      = filter (\<lambda>(v, x, y). \<not> (x < gw \<and> y < gh)) (forEach s)"
    unfolding forEach_map filter_map
    by (rule arg_cong [where f = "map (record_of s)"], rule filter_cong)
       (auto simp: record_of_def)
  with resize_to_kept(7) [OF assms] show ?thesis by simp
qed

lemma resize_to_get:
  assumes "grid_inv s" and "resize_to gw gh bw bh s = Return () s'"
    and "(v, x, y) \<in> set (forEach s)" and "x < gw \<and> y < gh"
  shows "\<exists>vs. get x y None s' = Inr vs \<and> v \<in> set vs"
proof -
  from assms(3) obtain a where a: "a \<in> set (all_items s)" and r: "record_of s a = (v, x, y)"
    unfolding forEach_map by auto
  from r have xy: "item_x (items s a) = x" "item_y (items s a) = y"
    by (simp_all add: record_of_def)
  from assms(1) a xy have pos: "0 \<le> x" "0 \<le> y"
    by (auto simp: grid_inv_def items_in_bounds_def)
  from assms(1,2) obtain nb' where
    "buckets s' = nb'"
    and f: "\<forall>a\<in>set (all_items s). \<not> (item_x (items s a) \<ge> gw \<or> item_y (items s a) \<ge> gh) \<longrightarrow>
       (\<exists>b. bucket_at nb' (bucketIndex (item_x (items s a)) bw)
               (bucketIndex (item_y (items s a)) bh) = Some b \<and> a \<in> set b)"
    by (rule resize_to_effect) simp
  with a xy assms(4) obtain b where
    b: "bucket_at (buckets s') (bucketIndex x bw) (bucketIndex y bh) = Some b" and ab: "a \<in> set b"
    by (auto simp: not_le)
  note k = resize_to_kept [OF assms(1,2)]
  from b have "set b \<subseteq> set (all_items s')" unfolding all_items_def by (rule bucket_at_subset)
  with ab k(2) r have "record_of s' a = (v, x, y)" by auto
  with ab have "(v, x, y) \<in> set (records s' b)" by (force simp: records_def)
  then have "v \<in> set (map fst (filter (\<lambda>r. snd r = (x, y)) (records s' b)))" by force
  moreover have "get x y None s' = Inr (map fst (filter (\<lambda>r. snd r = (x, y)) (records s' b)))"
    using pos assms(4) b by (intro get_records) (simp_all add: k)
  ultimately show ?thesis by blast
qed

lemma resize_loop_returns:
  assumes "0 < bw" "0 < bh" "\<lceil>gw / bw\<rceil> \<le> 2 ^ 31" "\<lceil>gh / bh\<rceil> \<le> 2 ^ 31"
    and "length nb = nat \<lceil>gw / bw\<rceil>" "\<forall>row\<in>set nb. length row = nat \<lceil>gh / bh\<rceil>"
    and "\<forall>a\<in>set rest. 0 \<le> item_x (items s a) \<and> 0 \<le> item_y (items s a)"
  shows "\<exists>nb' s'. resize_loop gw gh bw bh rest nb s = Return nb' s'"
  using assms(5-7)
proof (induction rest arbitrary: nb s)
  case Nil
  show ?case by simp
next
  case (Cons item rest)
  let ?x = "item_x (items s item)" and ?y = "item_y (items s item)"
  show ?case
  proof (cases "?x \<ge> gw \<or> ?y \<ge> gh")
    case True
    let ?s1 = "s\<lparr>destructorCalls :=
                  (if destructorCallback s
                   then destructorCalls s @
                          [(item_value (items s item), item_x (items s item), item_y (items s item))]
                   else destructorCalls s),
                items := (items s)(item := (items s item)\<lparr>item_value := Undefined\<rparr>),
                itemPool := FastPool_release item (itemPool s),
                grid_size := grid_size s - 1\<rparr>"
    from Cons.prems(3) have "\<forall>a\<in>set rest. 0 \<le> item_x (items ?s1 a) \<and> 0 \<le> item_y (items ?s1 a)"
      by simp
    from Cons.IH [OF Cons.prems(1,2) this] True show ?thesis
      by (simp only: resize_loop.simps if_True)
  next
    case False
    then have lt: "?x < gw" "?y < gh" by simp_all
    from Cons.prems(3) have pos: "0 \<le> ?x" "0 \<le> ?y" by simp_all
    from bucketIndex_in_range [OF pos(1) lt(1) assms(1,3)]
    have i: "bucketIndex ?x bw = \<lfloor>?x / bw\<rfloor>" "0 \<le> \<lfloor>?x / bw\<rfloor>" "\<lfloor>?x / bw\<rfloor> < \<lceil>gw / bw\<rceil>"
      by blast+
    from bucketIndex_in_range [OF pos(2) lt(2) assms(2,4)]
    have j: "bucketIndex ?y bh = \<lfloor>?y / bh\<rfloor>" "0 \<le> \<lfloor>?y / bh\<rfloor>" "\<lfloor>?y / bh\<rfloor> < \<lceil>gh / bh\<rceil>"
      by blast+
    from i Cons.prems(1) have il: "nat (bucketIndex ?x bw) < length nb" by linarith
    then have "nb ! nat (bucketIndex ?x bw) \<in> set nb" by simp
    with Cons.prems(2) have "length (nb ! nat (bucketIndex ?x bw)) = nat \<lceil>gh / bh\<rceil>" by blast
    with j have jl: "nat (bucketIndex ?y bh) < length (nb ! nat (bucketIndex ?x bw))" by linarith
    from i(1,2) have i0: "0 \<le> bucketIndex ?x bw" by simp
    from j(1,2) have j0: "0 \<le> bucketIndex ?y bh" by simp
    from il i0 have i1: "bucketIndex ?x bw < int (length nb)" by linarith
    from jl j0 have j1: "bucketIndex ?y bh < int (length (nb ! nat (bucketIndex ?x bw)))"
      by linarith
    from i0 i1 j0 j1 obtain b where
      b: "bucket_at nb (bucketIndex ?x bw) (bucketIndex ?y bh) = Some b"
      unfolding bucket_at_Some_iff by blast
    let ?nb = "set_bucket nb (bucketIndex ?x bw) (bucketIndex ?y bh) (b @ [item])"
    have "length ?nb = nat \<lceil>gw / bw\<rceil>" using Cons.prems(1) by simp
    moreover have "\<forall>row\<in>set ?nb. length row = nat \<lceil>gh / bh\<rceil>"
      using set_bucket_rows [of _ nb] Cons.prems(2) by metis
    moreover from Cons.prems(3)
    have "\<forall>a\<in>set rest. 0 \<le> item_x (items s a) \<and> 0 \<le> item_y (items s a)" by simp
    ultimately have "\<exists>nb' s'. resize_loop gw gh bw bh rest ?nb s = Return nb' s'"
      by (rule Cons.IH)
    with False b show ?thesis by (simp add: Let_def)
  qed
qed

lemma make_buckets_positive:
  assumes "0 < bw" "0 < bh"
  obtains nb where "make_buckets gw gh bw bh = Some nb"
    "length nb = nat \<lceil>gw / bw\<rceil>" "\<forall>row\<in>set nb. length row = nat \<lceil>gh / bh\<rceil>"
proof (cases "nat \<lceil>gw / bw\<rceil> = 0")
  case True
  with assms have "make_buckets gw gh bw bh = Some []"
    by (simp add: make_buckets_def bucketsIn_def)
  with True show ?thesis by (intro that [of "[]"]) simp_all
next
  case False
  with assms have "make_buckets gw gh bw bh
      = Some (replicate (nat \<lceil>gw / bw\<rceil>) (replicate (nat \<lceil>gh / bh\<rceil>) []))"
    by (simp add: make_buckets_def bucketsIn_def)
  then show ?thesis by (intro that [of "replicate (nat \<lceil>gw / bw\<rceil>) (replicate (nat \<lceil>gh / bh\<rceil>) [])"]) simp_all
qed

lemma resize_to_returns:
  assumes "items_in_bounds s"
    and "0 < bw" "0 < bh" "\<lceil>gw / bw\<rceil> \<le> 2 ^ 31" "\<lceil>gh / bh\<rceil> \<le> 2 ^ 31"
  shows "\<exists>s'. resize_to gw gh bw bh s = Return () s'"
proof -
  from assms(2,3) obtain nb where mk: "make_buckets gw gh bw bh = Some nb"
    and l: "length nb = nat \<lceil>gw / bw\<rceil>" "\<forall>row\<in>set nb. length row = nat \<lceil>gh / bh\<rceil>"
    by (rule make_buckets_positive)
  from assms(1) have "\<forall>a\<in>set (all_items s). 0 \<le> item_x (items s a) \<and> 0 \<le> item_y (items s a)"
    by (simp add: items_in_bounds_def)
  from resize_loop_returns [OF assms(2-5) l this] obtain nb' s1 where
    "resize_loop gw gh bw bh (all_items s) nb s = Return nb' s1" by blast
  with mk show ?thesis by (simp add: resize_to_def)
qed

lemma get_out_of_bounds:
  "\<not> (x < gridWidth s \<and> y < gridHeight s) \<Longrightarrow> get x y out s = Inl BoundsError"
  by (auto simp: get_def)

lemma resize_to_summary:
  assumes "grid_inv s" and "resize_to gw gh bw bh s = Return () s'"
  shows "gridWidth s' = gw \<and> gridHeight s' = gh \<and>
         (\<forall>(v, x, y)\<in>set (forEach s).
            x < gw \<and> y < gh \<longrightarrow> (\<exists>vs. get x y None s' = Inr vs \<and> v \<in> set vs)) \<and>
         (\<forall>(v, x, y)\<in>set (forEach s).
            \<not> (x < gw \<and> y < gh) \<longrightarrow> get x y None s' = Inl BoundsError) \<and>
         destructorCalls s' = destructorCalls s @
           (if destructorCallback s
            then filter (\<lambda>(v, x, y). \<not> (x < gw \<and> y < gh)) (forEach s) else []) \<and>
         mset (forEach s') = filter_mset (\<lambda>(v, x, y). x < gw \<and> y < gh) (mset (forEach s)) \<and>
         grid_size s' = int (length (forEach s'))"
proof (intro conjI)
  note k = resize_to_kept [OF assms]
  show "gridWidth s' = gw" "gridHeight s' = gh" by (fact k)+
  show "\<forall>(v, x, y)\<in>set (forEach s).
          x < gw \<and> y < gh \<longrightarrow> (\<exists>vs. get x y None s' = Inr vs \<and> v \<in> set vs)"
    using resize_to_get [OF assms] by blast
  show "\<forall>(v, x, y)\<in>set (forEach s).
          \<not> (x < gw \<and> y < gh) \<longrightarrow> get x y None s' = Inl BoundsError"
    using get_out_of_bounds [of _ s'] unfolding k(3,4) by blast
  show "destructorCalls s' = destructorCalls s @
           (if destructorCallback s
            then filter (\<lambda>(v, x, y). \<not> (x < gw \<and> y < gh)) (forEach s) else [])"
    using assms by (rule resize_to_destructorCalls)
  show "mset (forEach s') = filter_mset (\<lambda>(v, x, y). x < gw \<and> y < gh) (mset (forEach s))"
    using assms by (rule resize_to_forEach)
  from assms(1) have "size_inv s" by (simp add: grid_inv_def)
  from resize_to_size_inv [OF this assms(2)]
  show "grid_size s' = int (length (forEach s'))" by (simp add: size_inv_def forEach_map)
qed

text \<open>
  C6. Let \<open>gw\<close>, \<open>gh\<close>, \<open>bw\<close> and \<open>bh\<close> be the dimensions \<open>resize\<close> is called with, an omitted one
  being the current one. In a grid that satisfies the invariants of the class, \<open>resize\<close>
  returns whenever the four dimensions are integers from 1 to \<open>2^52\<close> and there are at most
  \<open>2^31\<close> buckets in each direction. Whenever it returns: every record \<open>(v, x, y)\<close> with
  \<open>x < gw\<close> and \<open>y < gh\<close> is retrievable, \<open>get(x, y)\<close> contains \<open>v\<close>; at the coordinate of every
  other record \<open>get\<close> throws a BoundsError; the destructor callback, when one is configured,
  has been called once for each of these other records, with the record's \<open>(value, x, y)\<close>,
  in the order of \<open>forEach\<close>, and not otherwise; the records of the grid are those with
  \<open>x < gw\<close> and \<open>y < gh\<close>; and \<open>size\<close> is their number.
\<close>

theorem resize_effect:
  assumes "grid_inv s"
    and "gw = (case gw' of None \<Rightarrow> gridWidth s | Some w \<Rightarrow> w)"
    and "gh = (case gh' of None \<Rightarrow> gridHeight s | Some h \<Rightarrow> h)"
    and "bw = (case bw' of None \<Rightarrow> bucketWidth s | Some w \<Rightarrow> w)"
    and "bh = (case bh' of None \<Rightarrow> bucketHeight s | Some h \<Rightarrow> h)"
  shows "(exact_dimension gw \<and> exact_dimension gh \<and> exact_dimension bw \<and> exact_dimension bh \<and>
          \<lceil>gw / bw\<rceil> \<le> 2 ^ 31 \<and> \<lceil>gh / bh\<rceil> \<le> 2 ^ 31
            \<longrightarrow> (\<exists>s'. resize gw' gh' bw' bh' s = Return () s')) \<and>
         (\<forall>s'. resize gw' gh' bw' bh' s = Return () s' \<longrightarrow>
            gridWidth s' = gw \<and> gridHeight s' = gh \<and>
            (\<forall>(v, x, y)\<in>set (forEach s).
               x < gw \<and> y < gh \<longrightarrow> (\<exists>vs. get x y None s' = Inr vs \<and> v \<in> set vs)) \<and>
            (\<forall>(v, x, y)\<in>set (forEach s).
               \<not> (x < gw \<and> y < gh) \<longrightarrow> get x y None s' = Inl BoundsError) \<and>
            destructorCalls s' = destructorCalls s @
              (if destructorCallback s
               then filter (\<lambda>(v, x, y). \<not> (x < gw \<and> y < gh)) (forEach s) else []) \<and>
            mset (forEach s') = filter_mset (\<lambda>(v, x, y). x < gw \<and> y < gh) (mset (forEach s)) \<and>
            grid_size s' = int (length (forEach s')))"
proof (rule conjI, rule impI, goal_cases)
  case 1
  then have "0 < bw \<and> 0 < bh \<and> \<lceil>gw / bw\<rceil> \<le> 2 ^ 31 \<and> \<lceil>gh / bh\<rceil> \<le> 2 ^ 31"
    by (simp add: exact_dimension_def)
  moreover from assms(1) have "items_in_bounds s" by (simp add: grid_inv_def)
  ultimately have "\<exists>s'. resize_to gw gh bw bh s = Return () s'"
    using resize_to_returns by blast
  then show ?case unfolding resize_def assms(2-5) .
next
  case 2
  show ?case
  proof (intro allI impI)
    fix s' assume "resize gw' gh' bw' bh' s = Return () s'"
    then have "resize_to gw gh bw bh s = Return () s'" unfolding resize_def assms(2-5) .
    with assms(1) show "gridWidth s' = gw \<and> gridHeight s' = gh \<and>
              (\<forall>(v, x, y)\<in>set (forEach s).
                 x < gw \<and> y < gh \<longrightarrow> (\<exists>vs. get x y None s' = Inr vs \<and> v \<in> set vs)) \<and>
              (\<forall>(v, x, y)\<in>set (forEach s).
                 \<not> (x < gw \<and> y < gh) \<longrightarrow> get x y None s' = Inl BoundsError) \<and>
              destructorCalls s' = destructorCalls s @
                (if destructorCallback s
                 then filter (\<lambda>(v, x, y). \<not> (x < gw \<and> y < gh)) (forEach s) else []) \<and>
              mset (forEach s') = filter_mset (\<lambda>(v, x, y). x < gw \<and> y < gh) (mset (forEach s)) \<and>
              grid_size s' = int (length (forEach s'))"
      by (rule resize_to_summary)
  qed
qed

lemma example_spread_inv: "grid_inv example_spread"
proof -
  from example_single_inv have "pool_inv example_single" by (simp add: grid_inv_def)
  from insertAt_returns [OF this example_single_inv(2), of 8 6 "Element 6"]
  obtain s' where r: "insertAt 8 6 (Element 6) example_single = Return () s'"
    by (auto simp: example_single_fields)
  then have "s' = example_spread" by (simp add: example_spread_def)
  with insertAt_grid_inv [OF example_single_inv(1) r] show ?thesis by simp
qed

lemma example_spread_fields:
  "gridWidth example_spread = 9" "gridHeight example_spread = 7"
  "bucketWidth example_spread = 3" "bucketHeight example_spread = 4"
  "grid_size example_spread = 2"
  "destructorCallback example_spread = True" "destructorCalls example_spread = []"
  "forEach example_spread = [(Element 5, 0, 0), (Element 6, 8, 6)]"
  by (simp_all add: example_spread_def example_single_def grid_eval)

theorem resize_effect_witness:
  "forEach example_spread = [(Element 5, 0, 0), (Element 6, 8, 6)] \<and>
   resize (Some 3) (Some 3) None None example_spread
     = Return () (state_of (resize (Some 3) (Some 3) None None example_spread)) \<and>
   forEach (state_of (resize (Some 3) (Some 3) None None example_spread)) = [(Element 5, 0, 0)] \<and>
   destructorCalls (state_of (resize (Some 3) (Some 3) None None example_spread))
     = [(Element 6, 8, 6)] \<and>
   grid_size (state_of (resize (Some 3) (Some 3) None None example_spread)) = 1 \<and>
   get 8 6 None (state_of (resize (Some 3) (Some 3) None None example_spread)) = Inl BoundsError"
proof -
  note inst = resize_effect [OF example_spread_inv, of 3 "Some 3" 3 "Some 3" 3 None 4 None]
  have dims: "(3 :: number) = (case Some 3 of None \<Rightarrow> gridWidth example_spread | Some w \<Rightarrow> w)"
    "(3 :: number) = (case Some 3 of None \<Rightarrow> gridHeight example_spread | Some h \<Rightarrow> h)"
    "(3 :: number) = (case None of None \<Rightarrow> bucketWidth example_spread | Some w \<Rightarrow> w)"
    "(4 :: number) = (case None of None \<Rightarrow> bucketHeight example_spread | Some h \<Rightarrow> h)"
    by (simp_all add: example_spread_fields)
  have small: "exact_dimension 3 \<and> exact_dimension 3 \<and> exact_dimension 3 \<and> exact_dimension 4 \<and>
      \<lceil>3 / 3 :: number\<rceil> \<le> 2 ^ 31 \<and> \<lceil>3 / 4 :: number\<rceil> \<le> 2 ^ 31"
    by (simp add: exact_dimension_def isInteger_def)
  from inst [OF dims] small obtain s' where
    r: "resize (Some 3) (Some 3) None None example_spread = Return () s'" by blast
  with inst [OF dims] have
    "\<forall>(v, x, y)\<in>set (forEach example_spread).
        \<not> (x < 3 \<and> y < 3) \<longrightarrow> get x y None s' = Inl BoundsError"
    "destructorCalls s' = destructorCalls example_spread @
       (if destructorCallback example_spread
        then filter (\<lambda>(v, x, y). \<not> (x < 3 \<and> y < 3)) (forEach example_spread) else [])"
    "mset (forEach s') = filter_mset (\<lambda>(v, x, y). x < 3 \<and> y < 3) (mset (forEach example_spread))"
    "grid_size s' = int (length (forEach s'))"
    by blast+
  then have "get 8 6 None s' = Inl BoundsError" "destructorCalls s' = [(Element 6, 8, 6)]"
    "mset (forEach s') = {#(Element 5, 0, 0)#}" "grid_size s' = int (length (forEach s'))"
    by (simp_all add: example_spread_fields)
  moreover from this(3) have "forEach s' = [(Element 5, 0, 0)]" by simp
  ultimately show ?thesis using r by (simp add: example_spread_fields)
qed

end
